theory Spec2Isabelle
  imports
    Main
    "HOL-Library.Word"
    "HOL-Library.List_Lexorder"
    "HOL-Library.Product_Lexorder"
begin

section \<open>Data model\<close>

text \<open>
  Modelled from the spec: \<open>enum afi\<close> is declared in \<open>extern.h\<close>, which is not among the
  sources. The spec's data model has two address families with v4 ordered before v6;
  \<open>afi_val\<close> is the numeric value that \<open>spl_pfx_cmp\<close> compares.
\<close>

datatype afi = AFI_IPV4 | AFI_IPV6

fun afi_val :: "afi \<Rightarrow> nat" where
  "afi_val AFI_IPV4 = 1"
| "afi_val AFI_IPV6 = 2"

text \<open>
  Modelled from the spec: \<open>struct ip_addr\<close> and \<open>struct spl_pfx\<close> (\<open>extern.h\<close>): an IP
  prefix is its address bytes and a prefix length; an SPL prefix entry is an address
  family and an IP prefix. The address is a byte array that \<open>prefix_cmp\<close> reads 4 or 16
  bytes of; the prefix length is a byte.
\<close>

record ip_addr =
  addr :: "8 word list"
  prefixlen :: "8 word"

record spl_pfx =
  prefix :: ip_addr
  afi :: afi

text \<open>
  The address array has 16 bytes. An entry is in canonical form when the bytes that
  its family does not use (the last 12 of an IPv4 address) are zero.
\<close>

definition spl_pfx_ok :: "spl_pfx \<Rightarrow> bool" where
  "spl_pfx_ok e \<longleftrightarrow> length (addr (prefix e)) = 16"

definition spl_pfx_canon :: "spl_pfx \<Rightarrow> bool" where
  "spl_pfx_canon e \<longleftrightarrow>
     (afi e = AFI_IPV4 \<longrightarrow> drop 4 (addr (prefix e)) = replicate 12 0)"

section \<open>Ordering primitives\<close>

text \<open>
  The sign of C's \<open>memcmp\<close> on the first \<open>n\<close> bytes of two arrays: bytes are compared
  as unsigned values, the first difference decides. The arrays compared here have 16
  bytes and \<open>n\<close> is 4 or 16, so the last equation is only reached with \<open>n = 0\<close>.
\<close>

fun memcmp :: "8 word list \<Rightarrow> 8 word list \<Rightarrow> nat \<Rightarrow> int" where
  "memcmp (x # xs) (y # ys) (Suc n) =
     (if x < y then - 1 else if y < x then 1 else memcmp xs ys n)"
| "memcmp _ _ _ = 0"

text \<open>
  \<open>prefix_cmp\<close>: the \<open>switch\<close> on the family compares 4 or 16 address bytes and
  returns on a difference; otherwise the prefix lengths decide. The \<open>default\<close>
  branch of the source is excluded by the type \<open>afi\<close>.
\<close>

definition prefix_cmp :: "afi \<Rightarrow> ip_addr \<Rightarrow> ip_addr \<Rightarrow> int" where
  "prefix_cmp af a b =
     (let cmp = (case af of
                   AFI_IPV4 \<Rightarrow> memcmp (addr a) (addr b) 4
                 | AFI_IPV6 \<Rightarrow> memcmp (addr a) (addr b) 16)
      in if cmp < 0 then - 1
         else if cmp > 0 then 1
         else if prefixlen a < prefixlen b then - 1
         else if prefixlen a > prefixlen b then 1
         else 0)"

definition spl_pfx_cmp :: "spl_pfx \<Rightarrow> spl_pfx \<Rightarrow> int" where
  "spl_pfx_cmp a b =
     (if afi_val (afi a) > afi_val (afi b) then 1
      else if afi_val (afi a) < afi_val (afi b) then - 1
      else prefix_cmp (afi a) (prefix a) (prefix b))"

text \<open>
  A prefix list satisfies the grouping and order invariant when every entry precedes
  every later entry in the order of \<open>spl_pfx_cmp\<close>.
\<close>

definition pfxs_sorted :: "spl_pfx list \<Rightarrow> bool" where
  "pfxs_sorted xs \<longleftrightarrow> sorted_wrt (\<lambda>a b. spl_pfx_cmp a b = - 1) xs"

section \<open>Merging an SPL into the VSP database\<close>

text \<open>
  \<open>insert_vsp\<close>: the array \<open>vsp->prefixes\<close> with its count \<open>prefixesz\<close> is the list of
  its first \<open>prefixesz\<close> elements. For \<open>idx < prefixesz\<close> the tail is moved one slot to
  the right; then slot \<open>idx\<close> is written and the count incremented. The loop below only
  calls it with \<open>idx \<le> prefixesz\<close>.
\<close>

definition insert_vsp :: "spl_pfx list \<Rightarrow> nat \<Rightarrow> spl_pfx \<Rightarrow> spl_pfx list" where
  "insert_vsp prefixes idx pfx =
     (if idx < length prefixes
      then take idx prefixes @ pfx # drop idx prefixes
      else prefixes @ [pfx])"

text \<open>
  One iteration of the merge loop of \<open>spl_insert_vsps\<close>, on the loop state
  \<open>(i, j, vsp->prefixes)\<close>. \<open>cmp\<close> starts as \<open>-1\<close> and is only computed when
  \<open>j \<noteq> prefixesz\<close>.
\<close>

definition spl_merge_step ::
  "spl_pfx list \<Rightarrow> nat \<times> nat \<times> spl_pfx list \<Rightarrow> nat \<times> nat \<times> spl_pfx list" where
  "spl_merge_step pfxs st =
     (case st of (i, j, prefixes) \<Rightarrow>
        let cmp = (if j = length prefixes then - 1
                   else spl_pfx_cmp (pfxs ! i) (prefixes ! j));
            (i1, prefixes1) =
              (if j = length prefixes \<or> cmp < 0
               then (i + 1, insert_vsp prefixes j (pfxs ! i))
               else if cmp = 0 then (i + 1, prefixes)
               else (i, prefixes));
            j1 = (if j < length prefixes1 then j + 1 else j)
        in (i1, j1, prefixes1))"

text \<open>
  The loop \<open>for (i = 0, j = 0; i < spl->pfxsz; )\<close>. An index \<open>j\<close> beyond the count
  would read outside the record's prefixes; the model returns \<open>None\<close> there, and
  \<open>spl_merge_loop_start\<close> shows that the loop started at \<open>j = 0\<close> never does.
\<close>

function spl_merge_loop ::
  "spl_pfx list \<Rightarrow> nat \<Rightarrow> nat \<Rightarrow> spl_pfx list \<Rightarrow> spl_pfx list option" where
  "spl_merge_loop pfxs i j prefixes =
     (if i < length pfxs then
        (if length prefixes < j then None
         else case spl_merge_step pfxs (i, j, prefixes) of
                (i1, j1, prefixes1) \<Rightarrow> spl_merge_loop pfxs i1 j1 prefixes1)
      else Some prefixes)"
  by pat_completeness auto
termination
  by (relation "measure (\<lambda>(pfxs, i, j, prefixes).
         (length pfxs - i) + (length prefixes - j))")
     (auto simp: spl_merge_step_def insert_vsp_def Let_def split: if_splits)

declare spl_merge_loop.simps [simp del]


text \<open>
  Modelled from the spec: the SPL record \<open>struct spl\<close>, declared in \<open>extern.h\<close>, which
  is not among the sources; the fields are those the source reads and writes. \<open>pfxs\<close>
  with its count \<open>pfxsz\<close> is a list; \<open>char *\<close> fields are optional strings (\<open>None\<close> is
  \<open>NULL\<close>);
  \<open>time_t\<close> is a signed 64-bit value, \<open>int\<close> a 32-bit one, the AS id is a \<open>uint32_t\<close>;
  the valid flag is a boolean, as the spec has it.
\<close>

record spl =
  asid :: "32 word"
  pfxs :: "spl_pfx list"
  talid :: "32 word"
  aia :: "string option"
  aki :: "string option"
  sia :: "string option"
  ski :: "string option"
  signtime :: "64 word"
  notbefore :: "64 word"
  notafter :: "64 word"
  expires :: "64 word"
  valid :: bool

definition pfxsz :: "spl \<Rightarrow> nat" where
  "pfxsz s = length (pfxs s)"

text \<open>
  Modelled from the spec: the VSP record \<open>struct vsp\<close> (\<open>extern.h\<close>): AS id, prefixes
  with their count, expiration, trust-anchor id and repository id. Its fields \<open>asid\<close>,
  \<open>expires\<close> and \<open>talid\<close> carry the prefix \<open>vsp_\<close> here, since the SPL record has fields
  of the same names.
\<close>

record vsp =
  vsp_asid :: "32 word"
  prefixes :: "spl_pfx list"
  vsp_expires :: "64 word"
  vsp_talid :: "32 word"
  repoid :: "32 word"

text \<open>
  Modelled from the spec: the repository statistics sink (\<open>repo_stat_inc\<close> is not among
  the sources) accepts events new-unique, un-unique and total, tagged by repository,
  trust anchor and object type. The model records every call, in order.
\<close>

datatype rtype = RTYPE_SPL

datatype stype = STYPE_UNIQUE | STYPE_DEC_UNIQUE | STYPE_TOTAL

datatype 'r stat_call = Repo_stat_inc "'r option" "32 word" rtype stype

text \<open>
  The state \<open>spl_insert_vsps\<close> works on: the tree of VSP records, which \<open>vspcmp\<close> keys by
  AS id (a map from AS ids), and the statistics calls made so far.
\<close>

record 'r vsp_state =
  tree :: "32 word \<Rightarrow> vsp option"
  stats :: "'r stat_call list"

text \<open>
  \<open>spl_insert_vsps\<close>. \<open>rp\<close> is the repository or \<open>NULL\<close>; \<open>repo_id\<close> and \<open>repo_byid\<close> are
  not among the sources and are parameters. The candidate record is zero-initialised
  (\<open>calloc\<close>), so its repository id stays 0 when \<open>rp\<close> is \<open>NULL\<close>. \<open>RB_INSERT\<close> returns the
  record already stored under the AS id, or stores the candidate and returns \<open>NULL\<close>.
  Allocation failure ends the program (\<open>err\<close>) and is not modelled.
\<close>

definition spl_insert_vsps ::
  "('r \<Rightarrow> 32 word) \<Rightarrow> (32 word \<Rightarrow> 'r option) \<Rightarrow>
   'r vsp_state \<Rightarrow> spl \<Rightarrow> 'r option \<Rightarrow> 'r vsp_state option" where
  "spl_insert_vsps repo_id repo_byid st s rp =
     (let cand = \<lparr>vsp_asid = asid s, prefixes = [], vsp_expires = expires s,
                  vsp_talid = talid s,
                  repoid = (case rp of None \<Rightarrow> 0 | Some r \<Rightarrow> repo_id r)\<rparr>;
          (target, log1) =
            (case tree st (asid s) of
               Some found \<Rightarrow>
                 if vsp_expires found <s vsp_expires cand
                 then (found\<lparr>vsp_expires := vsp_expires cand,
                              vsp_talid := vsp_talid cand,
                              repoid := repoid cand\<rparr>,
                       stats st @
                         [Repo_stat_inc (repo_byid (repoid found)) (vsp_talid found)
                            RTYPE_SPL STYPE_DEC_UNIQUE,
                          Repo_stat_inc rp (vsp_talid cand) RTYPE_SPL STYPE_UNIQUE])
                 else (found, stats st)
             | None \<Rightarrow>
                 (cand, stats st @
                    [Repo_stat_inc rp (vsp_talid cand) RTYPE_SPL STYPE_UNIQUE]));
          log2 = log1 @ [Repo_stat_inc rp (talid s) RTYPE_SPL STYPE_TOTAL]
      in case spl_merge_loop (pfxs s) 0 0 (prefixes target) of
           None \<Rightarrow> None
         | Some ps \<Rightarrow>
             Some (st\<lparr>tree := (tree st)(asid s \<mapsto> target\<lparr>prefixes := ps\<rparr>),
                      stats := log2\<rparr>))"

text \<open>
  What validation guarantees of an SPL record's prefix list (\<open>spl_parse_econtent\<close>):
  well-formed entries in strictly increasing order.
\<close>

definition spl_validated :: "spl \<Rightarrow> bool" where
  "spl_validated s \<longleftrightarrow> list_all spl_pfx_ok (pfxs s) \<and> pfxs_sorted (pfxs s)"

text \<open>
  The invariant of the database: every record's prefix list holds well-formed entries
  in strictly increasing order.
\<close>

definition vsp_ok :: "vsp \<Rightarrow> bool" where
  "vsp_ok v \<longleftrightarrow> (\<forall>e\<in>set (prefixes v). spl_pfx_ok e) \<and> pfxs_sorted (prefixes v)"

definition vsp_tree_ok :: "(32 word \<Rightarrow> vsp option) \<Rightarrow> bool" where
  "vsp_tree_ok t \<longleftrightarrow> (\<forall>a v. t a = Some v \<longrightarrow> vsp_ok v)"

text \<open>
  A run of the aggregation: the SPLs of a list, each with its repository, merged one
  after the other.
\<close>

fun spl_insert_all ::
  "('r \<Rightarrow> 32 word) \<Rightarrow> (32 word \<Rightarrow> 'r option) \<Rightarrow>
   'r vsp_state \<Rightarrow> (spl \<times> 'r option) list \<Rightarrow> 'r vsp_state option" where
  "spl_insert_all repo_id repo_byid st [] = Some st"
| "spl_insert_all repo_id repo_byid st ((s, rp) # rest) =
     (case spl_insert_vsps repo_id repo_byid st s rp of
        None \<Rightarrow> None
      | Some st1 \<Rightarrow> spl_insert_all repo_id repo_byid st1 rest)"

text \<open>The prefix list of the record stored for an AS id; empty when there is none.\<close>

definition vsp_prefixes :: "(32 word \<Rightarrow> vsp option) \<Rightarrow> 32 word \<Rightarrow> spl_pfx list" where
  "vsp_prefixes t a = (case t a of None \<Rightarrow> [] | Some v \<Rightarrow> prefixes v)"

text \<open>Grouping by address family: no IPv6 entry is followed by an IPv4 entry.\<close>

definition pfxs_grouped :: "spl_pfx list \<Rightarrow> bool" where
  "pfxs_grouped xs \<longleftrightarrow> sorted_wrt (\<lambda>a b. afi_val (afi a) \<le> afi_val (afi b)) xs"

subsection \<open>Auxiliary notions for the proofs\<close>

text \<open>
  The comparator is the lexicographic order on the key made of the family, the address
  bytes the family uses, and the prefix length.
\<close>

definition afi_len :: "afi \<Rightarrow> nat" where
  "afi_len af = (case af of AFI_IPV4 \<Rightarrow> 4 | AFI_IPV6 \<Rightarrow> 16)"

definition spl_pfx_key :: "spl_pfx \<Rightarrow> nat \<times> 8 word list \<times> 8 word" where
  "spl_pfx_key e =
     (afi_val (afi e), take (afi_len (afi e)) (addr (prefix e)), prefixlen (prefix e))"

text \<open>
  What the merge loop computes, on the parts of the two arrays that are still ahead of
  the indices (\<open>spl_merge_loop_list\<close> below).
\<close>

fun merge_list :: "spl_pfx list \<Rightarrow> spl_pfx list \<Rightarrow> spl_pfx list" where
  "merge_list [] ys = ys"
| "merge_list (x # xs) [] = x # merge_list xs []"
| "merge_list (x # xs) (y # ys) =
     (if spl_pfx_cmp x y < 0 then x # merge_list xs (y # ys)
      else if spl_pfx_cmp x y = 0 then y # merge_list xs ys
      else y # merge_list (x # xs) ys)"

subsection \<open>Metadata and example records\<close>

text \<open>
  The ownership metadata of a VSP record, and the metadata an incoming SPL would give
  it: trust-anchor id, repository id (0 without a repository) and expiration.
\<close>

definition vsp_meta :: "vsp \<Rightarrow> 32 word \<times> 32 word \<times> 64 word" where
  "vsp_meta v = (vsp_talid v, repoid v, vsp_expires v)"

definition spl_meta :: "('r \<Rightarrow> 32 word) \<Rightarrow> spl \<Rightarrow> 'r option \<Rightarrow> 32 word \<times> 32 word \<times> 64 word" where
  "spl_meta repo_id s rp =
     (talid s, (case rp of None \<Rightarrow> 0 | Some r \<Rightarrow> repo_id r), expires s)"

text \<open>
  An incoming SPL takes over the metadata of the database's record for its AS id when
  there is no record yet, or the record expires strictly before the SPL.
\<close>

definition superseded_by :: "(32 word \<Rightarrow> vsp option) \<Rightarrow> spl \<Rightarrow> bool" where
  "superseded_by t s \<longleftrightarrow>
     (case t (asid s) of None \<Rightarrow> True | Some found \<Rightarrow> vsp_expires found <s expires s)"

text \<open>
  Example records: the zero-initialised SPL record (\<open>calloc\<close>), IPv4 entries in
  canonical form, two SPLs for AS 65000, and databases without and with a record for it.
\<close>

definition ipv4_pfx :: "8 word \<Rightarrow> 8 word \<Rightarrow> 8 word \<Rightarrow> 8 word \<Rightarrow> 8 word \<Rightarrow> spl_pfx" where
  "ipv4_pfx a b c d len =
     \<lparr>prefix = \<lparr>addr = [a, b, c, d] @ replicate 12 0, prefixlen = len\<rparr>, afi = AFI_IPV4\<rparr>"

definition spl_calloc :: spl where
  "spl_calloc = \<lparr>asid = 0, pfxs = [], talid = 0, aia = None, aki = None, sia = None,
     ski = None, signtime = 0, notbefore = 0, notafter = 0, expires = 0, valid = False\<rparr>"

definition ex_spl1 :: spl where
  "ex_spl1 = spl_calloc\<lparr>asid := 65000, pfxs := [ipv4_pfx 10 0 0 0 8, ipv4_pfx 10 2 0 0 16],
     talid := 1, expires := 100\<rparr>"

definition ex_spl2 :: spl where
  "ex_spl2 = spl_calloc\<lparr>asid := 65000, pfxs := [ipv4_pfx 10 1 0 0 16],
     talid := 2, expires := 200\<rparr>"

definition ex_vsp1 :: vsp where
  "ex_vsp1 = \<lparr>vsp_asid = 65000, prefixes = [ipv4_pfx 10 0 0 0 8, ipv4_pfx 10 2 0 0 16],
     vsp_expires = 100, vsp_talid = 1, repoid = 7\<rparr>"

definition ex_state0 :: "nat vsp_state" where
  "ex_state0 = \<lparr>tree = (\<lambda>_. None), stats = []\<rparr>"

definition ex_state1 :: "nat vsp_state" where
  "ex_state1 = \<lparr>tree = [65000 \<mapsto> ex_vsp1], stats = []\<rparr>"

section \<open>The eContent validator\<close>

text \<open>
  The decoded eContent, as the ASN.1 templates of the source declare it. The types of
  ASN.1 integers, octet strings and bit strings are left open: the source only hands
  them to the collaborators below. \<open>version\<close> is optional (\<open>ASN1_EXP_OPT\<close>).
\<close>

record ('o, 'b) AddressFamilyPrefixes =
  addressFamily :: 'o
  addressPrefixes :: "'b list"

record ('i, 'o, 'b) SignedPrefixList =
  version :: "'i option"
  asn1_asid :: 'i
  prefixBlocks :: "('o, 'b) AddressFamilyPrefixes list"

text \<open>
  The collaborators of \<open>spl_parse_econtent\<close> and \<open>spl_parse\<close>, none of which is among
  the sources; they are parameters of the model. A function returning 0 for failure
  and filling an out-parameter on success is a function into \<open>option\<close>.
  \<open>d2i_SignedPrefixList\<close> returns the decoded structure and the number of bytes it
  consumed. An extractor \<open>x509_get_*\<close> can fail (\<open>None\<close>) or succeed with an absent value
  (\<open>Some None\<close>). \<open>MAX_IP_SIZE\<close> is the ceiling on the number of prefixes. The file name
  \<open>fn\<close> only serves the diagnostics and is left out.
\<close>

record ('i, 'o, 'b, 'x, 'c) collaborators =
  d2i_SignedPrefixList :: "8 word list \<Rightarrow> (('i, 'o, 'b) SignedPrefixList \<times> nat) option"
  valid_econtent_version :: "'i option \<Rightarrow> bool"
  as_id_parse :: "'i \<Rightarrow> 32 word option"
  ip_addr_afi_parse :: "'o \<Rightarrow> afi option"
  ip_addr_parse :: "'b \<Rightarrow> afi \<Rightarrow> ip_addr option"
  MAX_IP_SIZE :: nat
  cms_parse_validate :: "8 word list \<Rightarrow> ('x \<times> 8 word list \<times> 64 word) option"
  x509_get_aia :: "'x \<Rightarrow> string option option"
  x509_get_aki :: "'x \<Rightarrow> string option option"
  x509_get_sia :: "'x \<Rightarrow> string option option"
  x509_get_ski :: "'x \<Rightarrow> string option option"
  x509_get_notbefore :: "'x \<Rightarrow> 64 word option"
  x509_get_notafter :: "'x \<Rightarrow> 64 word option"
  x509_any_inherits :: "'x \<Rightarrow> bool"
  cert_parse_ee_cert :: "32 word \<Rightarrow> 'x \<Rightarrow> 'c option"
  cert_asz :: "'c \<Rightarrow> nat"
  cert_ipsz :: "'c \<Rightarrow> nat"
  valid_spl :: "'c \<Rightarrow> spl \<Rightarrow> bool"

text \<open>The ways \<open>spl_parse_econtent\<close> fails, one for each \<open>goto out\<close> with \<open>rc = 0\<close>.\<close>

datatype spl_error =
    Failed_to_parse
  | Trailing_garbage
  | Bad_version
  | Malformed_asid
  | Unexpected_number_of_blocks
  | Empty_block
  | Too_many_entries
  | Bad_address_family
  | IPv4_twice
  | IPv6_before_IPv4
  | IPv6_twice
  | Bad_prefix
  | Invalid_sorting

text \<open>
  The inner loop \<open>for (j = 0; j < prefixesz; j++)\<close> over the bit strings of one block
  that are still to be read. \<open>prev\<close> is what \<open>prev_ip_addr\<close> points to (\<open>None\<close> for
  \<open>NULL\<close>). Each accepted prefix is stored at the end of \<open>spl->pfxs\<close>.
\<close>

fun spl_parse_prefixes ::
  "('i, 'o, 'b, 'x, 'c) collaborators \<Rightarrow> afi \<Rightarrow> nat \<Rightarrow> ip_addr option \<Rightarrow> 'b list \<Rightarrow>
   spl \<Rightarrow> spl_error + spl" where
  "spl_parse_prefixes env af j prev [] s = Inr s"
| "spl_parse_prefixes env af j prev (prefix_asn1 # rest) s =
     (case ip_addr_parse env prefix_asn1 af of
        None \<Rightarrow> Inl Bad_prefix
      | Some ip \<Rightarrow>
          if j > 0 \<and> (case prev of None \<Rightarrow> False
                       | Some p \<Rightarrow> prefix_cmp af p ip \<noteq> - 1)
          then Inl Invalid_sorting
          else spl_parse_prefixes env af (j + 1) (Some ip) rest
                 (s\<lparr>pfxs := pfxs s @ [\<lparr>prefix = ip, afi = af\<rparr>]\<rparr>))"

text \<open>
  The \<open>switch (afi)\<close> of the outer loop on the counters \<open>ipv4_seen\<close> and \<open>ipv6_seen\<close>:
  the post-increment tests the old value.
\<close>

fun spl_afi_seen :: "afi \<Rightarrow> nat \<times> nat \<Rightarrow> spl_error + nat \<times> nat" where
  "spl_afi_seen AFI_IPV4 (ipv4_seen, ipv6_seen) =
     (if ipv4_seen > 0 then Inl IPv4_twice
      else if ipv6_seen > 0 then Inl IPv6_before_IPv4
      else Inr (ipv4_seen + 1, ipv6_seen))"
| "spl_afi_seen AFI_IPV6 (ipv4_seen, ipv6_seen) =
     (if ipv6_seen > 0 then Inl IPv6_twice
      else Inr (ipv4_seen, ipv6_seen + 1))"

text \<open>The outer loop \<open>for (i = 0; i < afpsz; i++)\<close> over the blocks still to be read.\<close>

fun spl_parse_blocks ::
  "('i, 'o, 'b, 'x, 'c) collaborators \<Rightarrow> ('o, 'b) AddressFamilyPrefixes list \<Rightarrow>
   nat \<times> nat \<Rightarrow> spl \<Rightarrow> spl_error + spl" where
  "spl_parse_blocks env [] seen s = Inr s"
| "spl_parse_blocks env (afp # rest) seen s =
     (let prefixesz = length (addressPrefixes afp) in
      if prefixesz = 0 then Inl Empty_block
      else if pfxsz s + prefixesz \<ge> MAX_IP_SIZE env then Inl Too_many_entries
      else case ip_addr_afi_parse env (addressFamily afp) of
             None \<Rightarrow> Inl Bad_address_family
           | Some af \<Rightarrow>
               (case spl_afi_seen af seen of
                  Inl e \<Rightarrow> Inl e
                | Inr seen1 \<Rightarrow>
                    (case spl_parse_prefixes env af 0 None (addressPrefixes afp) s of
                       Inl e \<Rightarrow> Inl e
                     | Inr s1 \<Rightarrow> spl_parse_blocks env rest seen1 s1)))"

text \<open>
  \<open>spl_parse_econtent\<close>: the result is \<open>Inr\<close> of the updated record when the source
  returns 1, and \<open>Inl\<close> when it returns 0; the caller then frees the record, whatever
  was stored in it.
\<close>

definition spl_parse_econtent ::
  "('i, 'o, 'b, 'x, 'c) collaborators \<Rightarrow> spl \<Rightarrow> 8 word list \<Rightarrow> spl_error + spl" where
  "spl_parse_econtent env s d =
     (case d2i_SignedPrefixList env d of
        None \<Rightarrow> Inl Failed_to_parse
      | Some (spl_asn1, used) \<Rightarrow>
          if used \<noteq> length d then Inl Trailing_garbage
          else if \<not> valid_econtent_version env (version spl_asn1) then Inl Bad_version
          else case as_id_parse env (asn1_asid spl_asn1) of
                 None \<Rightarrow> Inl Malformed_asid
               | Some a \<Rightarrow>
                   let afpsz = int (length (prefixBlocks spl_asn1)) in
                   if afpsz < 0 \<or> afpsz > 2 then Inl Unexpected_number_of_blocks
                   else spl_parse_blocks env (prefixBlocks spl_asn1) (0, 0)
                          (s\<lparr>asid := a\<rparr>))"

section \<open>The SPL object builder\<close>

text \<open>
  \<open>spl_parse\<close> returns the record, or \<open>None\<close> for \<open>NULL\<close>. The record starts
  zero-initialised (\<open>calloc\<close>). The certificate handle \<open>*x509\<close> is released on failure
  and kept on success; the model returns the record only.
\<close>

definition spl_parse ::
  "('i, 'o, 'b, 'x, 'c) collaborators \<Rightarrow> 32 word \<Rightarrow> 8 word list \<Rightarrow> spl option" where
  "spl_parse env tal der =
     (case cms_parse_validate env der of
        None \<Rightarrow> None
      | Some (x509, cms, tm) \<Rightarrow>
     (case x509_get_aia env x509 of None \<Rightarrow> None | Some a \<Rightarrow>
     (case x509_get_aki env x509 of None \<Rightarrow> None | Some k \<Rightarrow>
     (case x509_get_sia env x509 of None \<Rightarrow> None | Some si \<Rightarrow>
     (case x509_get_ski env x509 of None \<Rightarrow> None | Some sk \<Rightarrow>
        if a = None \<or> k = None \<or> si = None \<or> sk = None then None
        else
     (case x509_get_notbefore env x509 of None \<Rightarrow> None | Some nb \<Rightarrow>
     (case x509_get_notafter env x509 of None \<Rightarrow> None | Some na \<Rightarrow>
     (case spl_parse_econtent env
             (spl_calloc\<lparr>signtime := tm, aia := a, aki := k, sia := si, ski := sk,
                notbefore := nb, notafter := na\<rparr>) cms of
        Inl e \<Rightarrow> None
      | Inr s \<Rightarrow>
          if x509_any_inherits env x509 then None
          else
     (case cert_parse_ee_cert env tal x509 of None \<Rightarrow> None | Some cert \<Rightarrow>
          if cert_asz env cert = 0 then None
          else if cert_ipsz env cert > 0 then None
          else Some (s\<lparr>valid := valid_spl env cert s\<rparr>))))))))))"

subsection \<open>Auxiliary notions for the validator\<close>

text \<open>The entry the inner loop stores for a parsed address.\<close>

definition mk_pfx :: "afi \<Rightarrow> ip_addr \<Rightarrow> spl_pfx" where
  "mk_pfx af ip = \<lparr>prefix = ip, afi = af\<rparr>"

text \<open>
  What the validator has checked of a block it accepted: it is not empty, its family
  tag decodes, and its prefixes decode to strictly increasing addresses.
\<close>

definition block_accepted ::
  "('i, 'o, 'b, 'x, 'c) collaborators \<Rightarrow> ('o, 'b) AddressFamilyPrefixes \<Rightarrow> afi \<Rightarrow> bool" where
  "block_accepted env afp af \<longleftrightarrow>
     addressPrefixes afp \<noteq> [] \<and>
     ip_addr_afi_parse env (addressFamily afp) = Some af \<and>
     (\<exists>ips. map (\<lambda>b. ip_addr_parse env b af) (addressPrefixes afp) = map Some ips \<and>
        successively (\<lambda>p q. prefix_cmp af p q = - 1) ips)"

text \<open>The number of prefixes of each block.\<close>

definition block_sizes :: "('i, 'o, 'b) SignedPrefixList \<Rightarrow> nat list" where
  "block_sizes t = map (\<lambda>b. length (addressPrefixes b)) (prefixBlocks t)"

text \<open>
  The malformed eContents of the spec's rejection cases, as predicates on the decoded
  structure: three blocks; an IPv6 block before an IPv4 block; an empty block; a block
  with two neighbouring prefixes of which the second does not strictly exceed the first;
  two blocks with the same family tag or the same decoded family.
\<close>

definition three_blocks :: "('i, 'o, 'b) SignedPrefixList \<Rightarrow> bool" where
  "three_blocks t \<longleftrightarrow> length (prefixBlocks t) = 3"

definition ipv6_before_ipv4 ::
  "('i, 'o, 'b, 'x, 'c) collaborators \<Rightarrow> ('i, 'o, 'b) SignedPrefixList \<Rightarrow> bool" where
  "ipv6_before_ipv4 env t \<longleftrightarrow>
     (\<exists>j<length (prefixBlocks t). \<exists>i<j.
        ip_addr_afi_parse env (addressFamily (prefixBlocks t ! i)) = Some AFI_IPV6 \<and>
        ip_addr_afi_parse env (addressFamily (prefixBlocks t ! j)) = Some AFI_IPV4)"

definition has_empty_block :: "('i, 'o, 'b) SignedPrefixList \<Rightarrow> bool" where
  "has_empty_block t \<longleftrightarrow> list_ex (\<lambda>b. addressPrefixes b = []) (prefixBlocks t)"

definition block_unsorted ::
  "('i, 'o, 'b, 'x, 'c) collaborators \<Rightarrow> ('o, 'b) AddressFamilyPrefixes \<Rightarrow> bool" where
  "block_unsorted env b \<longleftrightarrow>
     (case ip_addr_afi_parse env (addressFamily b) of
        None \<Rightarrow> False
      | Some af \<Rightarrow>
          (\<exists>k<length (addressPrefixes b) - 1.
             case (ip_addr_parse env (addressPrefixes b ! k) af,
                   ip_addr_parse env (addressPrefixes b ! Suc k) af) of
               (Some p, Some q) \<Rightarrow> prefix_cmp af p q \<noteq> - 1
             | _ \<Rightarrow> False))"

definition has_unsorted_block ::
  "('i, 'o, 'b, 'x, 'c) collaborators \<Rightarrow> ('i, 'o, 'b) SignedPrefixList \<Rightarrow> bool" where
  "has_unsorted_block env t \<longleftrightarrow> list_ex (block_unsorted env) (prefixBlocks t)"

definition duplicate_family ::
  "('i, 'o, 'b, 'x, 'c) collaborators \<Rightarrow> ('i, 'o, 'b) SignedPrefixList \<Rightarrow> bool" where
  "duplicate_family env t \<longleftrightarrow>
     (\<exists>j<length (prefixBlocks t). \<exists>i<j.
        addressFamily (prefixBlocks t ! i) = addressFamily (prefixBlocks t ! j) \<or>
        (ip_addr_afi_parse env (addressFamily (prefixBlocks t ! i)) \<noteq> None \<and>
         ip_addr_afi_parse env (addressFamily (prefixBlocks t ! i)) =
           ip_addr_afi_parse env (addressFamily (prefixBlocks t ! j))))"

text \<open>
  Steps 1 to 6 of the object builder in the spec's words: CMS verification succeeds, the
  four mandatory extensions are extracted and present, the validity window is extracted,
  the eContent validator accepts and yields the record \<open>s\<close>, the certificate declares no
  inherited resources, and the end-entity certificate parses to \<open>cert\<close>, with AS
  resources and without IP resources.
\<close>

definition spl_structural_steps ::
  "('i, 'o, 'b, 'x, 'c) collaborators \<Rightarrow> 32 word \<Rightarrow> 8 word list \<Rightarrow> spl \<Rightarrow> 'c \<Rightarrow> bool" where
  "spl_structural_steps env tal der s cert \<longleftrightarrow>
     (\<exists>x509 cms tm a k si sk nb na.
        cms_parse_validate env der = Some (x509, cms, tm) \<and>
        x509_get_aia env x509 = Some (Some a) \<and>
        x509_get_aki env x509 = Some (Some k) \<and>
        x509_get_sia env x509 = Some (Some si) \<and>
        x509_get_ski env x509 = Some (Some sk) \<and>
        x509_get_notbefore env x509 = Some nb \<and>
        x509_get_notafter env x509 = Some na \<and>
        spl_parse_econtent env
          (spl_calloc\<lparr>signtime := tm, aia := Some a, aki := Some k, sia := Some si,
             ski := Some sk, notbefore := nb, notafter := na\<rparr>) cms = Inr s \<and>
        \<not> x509_any_inherits env x509 \<and>
        cert_parse_ee_cert env tal x509 = Some cert \<and>
        cert_asz env cert \<noteq> 0 \<and> cert_ipsz env cert = 0)"

subsection \<open>An example environment\<close>

text \<open>
  Collaborators for the examples. A bit string is a pair of address bytes and prefix
  length; a family tag is the two-byte AFI; the eContent is one byte that selects a
  decoded structure; the signed object is two bytes, the eContent and a certificate
  number. Certificate 1 has no AS resources, certificate 2 has IP resources, and the
  policy rejects certificate 3.
\<close>

definition ex_ip_addr_parse :: "8 word list \<times> 8 word \<Rightarrow> afi \<Rightarrow> ip_addr option" where
  "ex_ip_addr_parse b af =
     (if length (fst b) \<le> afi_len af
      then Some \<lparr>addr = fst b @ replicate (16 - length (fst b)) 0, prefixlen = snd b\<rparr>
      else None)"

definition ex_afi_parse :: "8 word list \<Rightarrow> afi option" where
  "ex_afi_parse tag = (if tag = [0, 1] then Some AFI_IPV4
                       else if tag = [0, 2] then Some AFI_IPV6 else None)"

definition ex_block4 :: "(8 word list, 8 word list \<times> 8 word) AddressFamilyPrefixes" where
  "ex_block4 = \<lparr>addressFamily = [0, 1], addressPrefixes = [([10], 8), ([10, 2], 16)]\<rparr>"

definition ex_block6 :: "(8 word list, 8 word list \<times> 8 word) AddressFamilyPrefixes" where
  "ex_block6 = \<lparr>addressFamily = [0, 2], addressPrefixes = [([32, 1, 13, 184], 32)]\<rparr>"

definition ex_block4_unsorted :: "(8 word list, 8 word list \<times> 8 word) AddressFamilyPrefixes" where
  "ex_block4_unsorted = \<lparr>addressFamily = [0, 1], addressPrefixes = [([10, 2], 16), ([10], 8)]\<rparr>"

definition ex_block4_empty :: "(8 word list, 8 word list \<times> 8 word) AddressFamilyPrefixes" where
  "ex_block4_empty = \<lparr>addressFamily = [0, 1], addressPrefixes = []\<rparr>"

definition ex_tree ::
  "(8 word list, 8 word list \<times> 8 word) AddressFamilyPrefixes list \<Rightarrow>
   (nat, 8 word list, 8 word list \<times> 8 word) SignedPrefixList" where
  "ex_tree blocks = \<lparr>version = None, asn1_asid = 65000, prefixBlocks = blocks\<rparr>"

definition ex_d2i ::
  "8 word list \<Rightarrow> ((nat, 8 word list, 8 word list \<times> 8 word) SignedPrefixList \<times> nat) option" where
  "ex_d2i d =
     (if d = [0] then Some (ex_tree [ex_block4, ex_block6], 1)
      else if d = [1] then Some (ex_tree [ex_block4, ex_block6, ex_block6], 1)
      else if d = [2] then Some (ex_tree [ex_block6, ex_block4], 1)
      else if d = [3] then Some (ex_tree [ex_block4_empty], 1)
      else if d = [4] then Some (ex_tree [ex_block4_unsorted], 1)
      else if d = [5] then Some (ex_tree [ex_block4, ex_block4], 1)
      else if d = [6] then Some (ex_tree [], 1)
      else None)"

definition ex_env ::
  "(nat, 8 word list, 8 word list \<times> 8 word, 8 word, 8 word) collaborators" where
  "ex_env = \<lparr>
     d2i_SignedPrefixList = ex_d2i,
     valid_econtent_version = (\<lambda>v. v = None \<or> v = Some 0),
     as_id_parse = (\<lambda>n. if n < 2 ^ 32 then Some (of_nat n) else None),
     ip_addr_afi_parse = ex_afi_parse,
     ip_addr_parse = ex_ip_addr_parse,
     MAX_IP_SIZE = 200000,
     cms_parse_validate = (\<lambda>der. case der of [n, m] \<Rightarrow> Some (m, [n], 1700000000) | _ \<Rightarrow> None),
     x509_get_aia = (\<lambda>x. Some (Some ''rsync://rpki.example.net/repo/ca.cer'')),
     x509_get_aki = (\<lambda>x. Some (Some ''AB:CD'')),
     x509_get_sia = (\<lambda>x. Some (Some ''rsync://rpki.example.net/repo/ca/as65000.spl'')),
     x509_get_ski = (\<lambda>x. Some (Some ''12:34'')),
     x509_get_notbefore = (\<lambda>x. Some 1700000000),
     x509_get_notafter = (\<lambda>x. Some 1800000000),
     x509_any_inherits = (\<lambda>x. False),
     cert_parse_ee_cert = (\<lambda>tal x. Some x),
     cert_asz = (\<lambda>c. if c = 1 then 0 else 1),
     cert_ipsz = (\<lambda>c. if c = 2 then 1 else 0),
     valid_spl = (\<lambda>c s. c \<noteq> 3)\<rparr>"

definition ex_pfx6 :: spl_pfx where
  "ex_pfx6 = \<lparr>prefix = \<lparr>addr = [32, 1, 13, 184] @ replicate 12 0, prefixlen = 32\<rparr>,
              afi = AFI_IPV6\<rparr>"

definition ex_parsed :: spl where
  "ex_parsed = spl_calloc\<lparr>asid := 65000,
     pfxs := [ipv4_pfx 10 0 0 0 8, ipv4_pfx 10 2 0 0 16, ex_pfx6],
     aia := Some ''rsync://rpki.example.net/repo/ca.cer'',
     aki := Some ''AB:CD'',
     sia := Some ''rsync://rpki.example.net/repo/ca/as65000.spl'',
     ski := Some ''12:34'',
     signtime := 1700000000, notbefore := 1700000000, notafter := 1800000000\<rparr>"

definition ex_spl0 :: spl where
  "ex_spl0 = spl_calloc\<lparr>asid := 65000, talid := 2, expires := 300\<rparr>"

section \<open>The binary codec\<close>

text \<open>
  A buffer is the list of its unread bytes: writing appends, reading takes from the
  front.
\<close>

type_synonym ibuf = "8 word list"

text \<open>The \<open>n\<close> bytes of an unsigned value in memory (little-endian), and back.\<close>

fun le_bytes :: "nat \<Rightarrow> nat \<Rightarrow> 8 word list" where
  "le_bytes 0 v = []"
| "le_bytes (Suc n) v = of_nat (v mod 256) # le_bytes n (v div 256)"

fun le_nat :: "8 word list \<Rightarrow> nat" where
  "le_nat [] = 0"
| "le_nat (b # bs) = unat b + 256 * le_nat bs"

text \<open>
  Modelled from the spec: the buffer primitives \<open>io_simple_buffer\<close>, \<open>io_str_buffer\<close>,
  \<open>io_read_buf\<close> and \<open>io_read_str\<close> (\<open>io.c\<close>) are not among the sources. The spec gives
  the wire layout: fixed-width fields written verbatim, one byte for the valid flag, and
  length-prefixed text fields; a decoded text field can be absent. Reading fails (the
  fatal \<open>errx\<close>) when too few bytes are left. A text field is written as its length in a
  \<open>size_t\<close> followed by its characters; \<open>NULL\<close> is written as length 0, and length 0 is
  read back as \<open>NULL\<close>.
\<close>

definition io_simple_buffer :: "ibuf \<Rightarrow> 8 word list \<Rightarrow> ibuf" where
  "io_simple_buffer b res = b @ res"

definition io_str_buffer :: "ibuf \<Rightarrow> string option \<Rightarrow> ibuf" where
  "io_str_buffer b p =
     (case p of
        None \<Rightarrow> io_simple_buffer b (le_bytes 8 0)
      | Some str \<Rightarrow>
          io_simple_buffer (io_simple_buffer b (le_bytes 8 (length str)))
            (map (\<lambda>c. of_nat (of_char c)) str))"

definition io_read_buf :: "ibuf \<Rightarrow> nat \<Rightarrow> (8 word list \<times> ibuf) option" where
  "io_read_buf b sz = (if length b < sz then None else Some (take sz b, drop sz b))"

definition io_read_str :: "ibuf \<Rightarrow> (string option \<times> ibuf) option" where
  "io_read_str b =
     (case io_read_buf b 8 of
        None \<Rightarrow> None
      | Some (szb, b1) \<Rightarrow>
          if le_nat szb = 0 then Some (None, b1)
          else (case io_read_buf b1 (le_nat szb) of
                  None \<Rightarrow> None
                | Some (res, b2) \<Rightarrow> Some (Some (map (\<lambda>x. char_of (unat x)) res), b2)))"

text \<open>
  Modelled from the spec: the bytes of one \<open>struct spl_pfx\<close> in the raw prefix-entry
  array: the 16 address bytes, the prefix length, three bytes of padding, and the family
  as a 4-byte enum, 24 bytes in all. Reading an entry back looks at the same offsets; a
  family value other than 1 or 2 has no counterpart in the type \<open>afi\<close> and is read as
  \<open>None\<close> (the writer never produces one).
\<close>

definition spl_pfx_size :: nat where
  "spl_pfx_size = 24"

definition spl_pfx_bytes :: "spl_pfx \<Rightarrow> 8 word list" where
  "spl_pfx_bytes e =
     addr (prefix e) @ [prefixlen (prefix e)] @ [0, 0, 0] @ le_bytes 4 (afi_val (afi e))"

definition afi_of_val :: "nat \<Rightarrow> afi option" where
  "afi_of_val v = (if v = 1 then Some AFI_IPV4 else if v = 2 then Some AFI_IPV6 else None)"

definition spl_pfx_of_bytes :: "8 word list \<Rightarrow> spl_pfx option" where
  "spl_pfx_of_bytes bs =
     (case afi_of_val (le_nat (take 4 (drop 20 bs))) of
        None \<Rightarrow> None
      | Some af \<Rightarrow>
          Some \<lparr>prefix = \<lparr>addr = take 16 bs, prefixlen = bs ! 16\<rparr>, afi = af\<rparr>)"

fun spl_pfxs_of_bytes :: "nat \<Rightarrow> 8 word list \<Rightarrow> spl_pfx list option" where
  "spl_pfxs_of_bytes 0 bs = Some []"
| "spl_pfxs_of_bytes (Suc n) bs =
     (case spl_pfx_of_bytes (take spl_pfx_size bs) of
        None \<Rightarrow> None
      | Some e \<Rightarrow>
          (case spl_pfxs_of_bytes n (drop spl_pfx_size bs) of
             None \<Rightarrow> None
           | Some es \<Rightarrow> Some (e # es)))"

text \<open>
  \<open>spl_buffer\<close>: valid flag, AS id, trust-anchor id, prefix count, expiration, the prefix
  array, and the three strings, in this order.
\<close>

definition spl_buffer :: "ibuf \<Rightarrow> spl \<Rightarrow> ibuf" where
  "spl_buffer b s =
     (let b1 = io_simple_buffer b [if valid s then 1 else 0];
          b2 = io_simple_buffer b1 (le_bytes 4 (unat (asid s)));
          b3 = io_simple_buffer b2 (le_bytes 4 (unat (talid s)));
          b4 = io_simple_buffer b3 (le_bytes 8 (pfxsz s));
          b5 = io_simple_buffer b4 (le_bytes 8 (unat (expires s)));
          b6 = io_simple_buffer b5 (concat (map spl_pfx_bytes (pfxs s)));
          b7 = io_str_buffer b6 (aia s);
          b8 = io_str_buffer b7 (aki s)
      in io_str_buffer b8 (ski s))"

text \<open>
  \<open>spl_read\<close>: the record starts zero-initialised; the fields are read in the order
  they were written; the \<open>assert\<close> that the three strings are present is the last
  \<open>None\<close>. The result is the record and the rest of the buffer.
\<close>

definition spl_read :: "ibuf \<Rightarrow> (spl \<times> ibuf) option" where
  "spl_read b =
     (case io_read_buf b 1 of None \<Rightarrow> None | Some (v, b1) \<Rightarrow>
     (case io_read_buf b1 4 of None \<Rightarrow> None | Some (a, b2) \<Rightarrow>
     (case io_read_buf b2 4 of None \<Rightarrow> None | Some (t, b3) \<Rightarrow>
     (case io_read_buf b3 8 of None \<Rightarrow> None | Some (n, b4) \<Rightarrow>
     (case io_read_buf b4 8 of None \<Rightarrow> None | Some (e, b5) \<Rightarrow>
     (case io_read_buf b5 (le_nat n * spl_pfx_size) of None \<Rightarrow> None | Some (ps, b6) \<Rightarrow>
     (case spl_pfxs_of_bytes (le_nat n) ps of None \<Rightarrow> None | Some es \<Rightarrow>
     (case io_read_str b6 of None \<Rightarrow> None | Some (ia, b7) \<Rightarrow>
     (case io_read_str b7 of None \<Rightarrow> None | Some (ik, b8) \<Rightarrow>
     (case io_read_str b8 of None \<Rightarrow> None | Some (sk, b9) \<Rightarrow>
        if ia = None \<or> ik = None \<or> sk = None then None
        else Some (spl_calloc\<lparr>valid := (le_nat v \<noteq> 0), asid := of_nat (le_nat a),
                     talid := of_nat (le_nat t), pfxs := es, expires := of_nat (le_nat e),
                     aia := ia, aki := ik, ski := sk\<rparr>, b9)))))))))))"

text \<open>
  A record the codec is meant for: 16 address bytes in every entry, the three strings
  present and not empty, and sizes that fit a \<open>size_t\<close>.
\<close>

definition wire_str_ok :: "string option \<Rightarrow> bool" where
  "wire_str_ok p = (case p of None \<Rightarrow> False | Some str \<Rightarrow> str \<noteq> [] \<and> length str < 2 ^ 64)"

definition spl_wire_ok :: "spl \<Rightarrow> bool" where
  "spl_wire_ok s \<longleftrightarrow>
     list_all spl_pfx_ok (pfxs s) \<and> length (pfxs s) * spl_pfx_size < 2 ^ 64 \<and>
     wire_str_ok (aia s) \<and> wire_str_ok (aki s) \<and> wire_str_ok (ski s)"

section \<open>Properties of the ordering primitives\<close>

lemma memcmp_key:
  "n \<le> length a \<Longrightarrow> n \<le> length b \<Longrightarrow>
   memcmp a b n = (if take n a < take n b then - 1 else if take n a = take n b then 0 else 1)"
proof (induction a b n rule: memcmp.induct)
  case (1 x xs y ys n)
  then show ?case by auto
qed auto

lemma afi_val_inj: "afi_val a = afi_val b \<longleftrightarrow> a = b"
  by (cases a; cases b) auto

lemma spl_pfx_cmp_key:
  assumes "spl_pfx_ok a" "spl_pfx_ok b"
  shows "spl_pfx_cmp a b =
     (if spl_pfx_key a < spl_pfx_key b then - 1
      else if spl_pfx_key a = spl_pfx_key b then 0 else 1)"
proof (cases "afi_val (afi a) = afi_val (afi b)")
  case False
  then show ?thesis by (auto simp: spl_pfx_cmp_def spl_pfx_key_def)
next
  case True
  then have eq: "afi a = afi b" by (simp add: afi_val_inj)
  show ?thesis using assms eq
    by (cases "afi b")
       (auto simp: spl_pfx_cmp_def spl_pfx_key_def prefix_cmp_def afi_len_def
          spl_pfx_ok_def memcmp_key Let_def)
qed

lemma spl_pfx_cmp_lt: "spl_pfx_ok a \<Longrightarrow> spl_pfx_ok b \<Longrightarrow> spl_pfx_cmp a b = - 1 \<longleftrightarrow> spl_pfx_key a < spl_pfx_key b"
  by (simp add: spl_pfx_cmp_key)
lemma spl_pfx_cmp_neg: "spl_pfx_ok a \<Longrightarrow> spl_pfx_ok b \<Longrightarrow> spl_pfx_cmp a b < 0 \<longleftrightarrow> spl_pfx_key a < spl_pfx_key b"
  by (simp add: spl_pfx_cmp_key)
lemma spl_pfx_cmp_eq: "spl_pfx_ok a \<Longrightarrow> spl_pfx_ok b \<Longrightarrow> spl_pfx_cmp a b = 0 \<longleftrightarrow> spl_pfx_key a = spl_pfx_key b"
  by (simp add: spl_pfx_cmp_key)

lemma spl_pfx_cmp_refl: "spl_pfx_cmp a a = 0"
proof -
  have "memcmp xs xs n = 0" for xs n
  proof (induction xs arbitrary: n)
    case (Cons x xs)
    then show ?case by (cases n) auto
  qed simp
  then show ?thesis
    by (cases "afi a") (simp_all add: spl_pfx_cmp_def prefix_cmp_def)
qed

lemma key_eq_canon:
  assumes "spl_pfx_ok a" "spl_pfx_ok b" "spl_pfx_canon a" "spl_pfx_canon b"
    and "spl_pfx_key a = spl_pfx_key b"
  shows "a = b"
proof -
  from assms(5) have af: "afi a = afi b"
    and tk: "take (afi_len (afi a)) (addr (prefix a)) = take (afi_len (afi a)) (addr (prefix b))"
    and pl: "prefixlen (prefix a) = prefixlen (prefix b)"
    by (auto simp: spl_pfx_key_def afi_val_inj)
  have "addr (prefix a) = addr (prefix b)"
  proof (cases "afi a")
    case AFI_IPV4
    with assms af tk have "take 4 (addr (prefix a)) = take 4 (addr (prefix b))"
      "drop 4 (addr (prefix a)) = drop 4 (addr (prefix b))"
      by (auto simp: afi_len_def spl_pfx_canon_def)
    then show ?thesis by (metis append_take_drop_id)
  next
    case AFI_IPV6
    with assms tk show ?thesis by (simp add: afi_len_def spl_pfx_ok_def)
  qed
  with pl have "prefix a = prefix b" by (simp add: ip_addr.equality)
  with af show ?thesis by (simp add: spl_pfx.equality)
qed

section \<open>The merge loop\<close>

lemma spl_merge_loop_step:
  assumes "i < length ins" "j \<le> length ps"
    and "spl_merge_step ins (i, j, ps) = (i1, j1, ps1)"
  shows "spl_merge_loop ins i j ps = spl_merge_loop ins i1 j1 ps1"
  using assms by (subst spl_merge_loop.simps) simp

lemma spl_merge_loop_list:
  "j \<le> length ps \<Longrightarrow>
   spl_merge_loop ins i j ps =
     Some (take j ps @ merge_list (drop i ins) (drop j ps))"
proof (induction ins i j ps rule: spl_merge_loop.induct)
  case (1 ins i j ps)
  show ?case
  proof (cases "i < length ins")
    case False
    then show ?thesis by (simp add: spl_merge_loop.simps[of ins i j ps])
  next
    case True
    then have di: "drop i ins = ins ! i # drop (Suc i) ins"
      by (simp add: Cons_nth_drop_Suc)
    from "1.prems" have nlt: "\<not> length ps < j" by simp
    show ?thesis
    proof (cases "j = length ps")
      case True
      have step: "spl_merge_step ins (i, j, ps) = (Suc i, Suc j, ps @ [ins ! i])"
        using True by (simp add: spl_merge_step_def insert_vsp_def)
      have "spl_merge_loop ins i j ps = spl_merge_loop ins (Suc i) (Suc j) (ps @ [ins ! i])"
          by (rule spl_merge_loop_step[OF \<open>i < length ins\<close> "1.prems" step])
      also have "\<dots> = Some (take (Suc j) (ps @ [ins ! i]) @
          merge_list (drop (Suc i) ins) (drop (Suc j) (ps @ [ins ! i])))"
        using "1.IH"[OF \<open>i < length ins\<close> nlt step[symmetric] refl] True by simp
      finally show ?thesis using True di by simp
    next
      case False
      with "1.prems" have jl: "j < length ps" by simp
      then have dj: "drop j ps = ps ! j # drop (Suc j) ps"
        by (simp add: Cons_nth_drop_Suc)
      consider (lt) "spl_pfx_cmp (ins ! i) (ps ! j) < 0"
        | (eq) "spl_pfx_cmp (ins ! i) (ps ! j) = 0"
        | (gt) "spl_pfx_cmp (ins ! i) (ps ! j) > 0" by linarith
      then show ?thesis
      proof cases
        case lt
        let ?p = "take j ps @ ins ! i # drop j ps"
        have step: "spl_merge_step ins (i, j, ps) = (Suc i, Suc j, ?p)"
          using jl lt by (simp add: spl_merge_step_def insert_vsp_def)
        have "spl_merge_loop ins i j ps = spl_merge_loop ins (Suc i) (Suc j) ?p"
          by (rule spl_merge_loop_step[OF \<open>i < length ins\<close> "1.prems" step])
        also have "\<dots> = Some (take (Suc j) ?p @ merge_list (drop (Suc i) ins) (drop (Suc j) ?p))"
          using "1.IH"[OF \<open>i < length ins\<close> nlt step[symmetric] refl] jl by simp
        finally show ?thesis using jl di dj lt by (simp add: take_Suc_conv_app_nth)
      next
        case eq
        have step: "spl_merge_step ins (i, j, ps) = (Suc i, Suc j, ps)"
          using jl eq by (simp add: spl_merge_step_def insert_vsp_def)
        have "spl_merge_loop ins i j ps = spl_merge_loop ins (Suc i) (Suc j) ps"
          by (rule spl_merge_loop_step[OF \<open>i < length ins\<close> "1.prems" step])
        also have "\<dots> = Some (take (Suc j) ps @ merge_list (drop (Suc i) ins) (drop (Suc j) ps))"
          using "1.IH"[OF \<open>i < length ins\<close> nlt step[symmetric] refl] jl by simp
        finally show ?thesis using jl di dj eq by (simp add: take_Suc_conv_app_nth)
      next
        case gt
        have step: "spl_merge_step ins (i, j, ps) = (i, Suc j, ps)"
          using jl gt by (simp add: spl_merge_step_def insert_vsp_def)
        have "spl_merge_loop ins i j ps = spl_merge_loop ins i (Suc j) ps"
          by (rule spl_merge_loop_step[OF \<open>i < length ins\<close> "1.prems" step])
        also have "\<dots> = Some (take (Suc j) ps @ merge_list (drop i ins) (drop (Suc j) ps))"
          using "1.IH"[OF \<open>i < length ins\<close> nlt step[symmetric] refl] jl by simp
        finally show ?thesis using jl di dj gt by (simp add: take_Suc_conv_app_nth)
      qed
    qed
  qed
qed


lemma set_merge_list_old: "set ys \<subseteq> set (merge_list xs ys)"
  by (induction xs ys rule: merge_list.induct) auto

lemma set_merge_list_sub: "set (merge_list xs ys) \<subseteq> set xs \<union> set ys"
  by (induction xs ys rule: merge_list.induct) auto

lemma merge_list_incoming:
  "x \<in> set xs \<Longrightarrow> \<exists>y\<in>set (merge_list xs ys). spl_pfx_cmp x y = 0"
proof (induction xs ys rule: merge_list.induct)
  case (1 ys)
  then show ?case by simp
next
  case (2 x' xs)
  then show ?case by (auto simp: spl_pfx_cmp_refl)
next
  case (3 x' xs y ys)
  then show ?case by (auto simp: spl_pfx_cmp_refl)
qed

lemma length_merge_list:
  "length ys \<le> length (merge_list xs ys) \<and> length (merge_list xs ys) \<le> length xs + length ys"
  by (induction xs ys rule: merge_list.induct) auto

lemma pfxs_sorted_Cons:
  "pfxs_sorted (x # xs) \<longleftrightarrow> (\<forall>y\<in>set xs. spl_pfx_cmp x y = - 1) \<and> pfxs_sorted xs"
  by (simp add: pfxs_sorted_def)

lemma pfxs_sorted_key:
  "\<forall>e\<in>set xs. spl_pfx_ok e \<Longrightarrow> pfxs_sorted xs \<longleftrightarrow> sorted_wrt (<) (map spl_pfx_key xs)"
  by (induction xs) (auto simp: pfxs_sorted_def spl_pfx_cmp_lt)

lemma merge_list_sorted:
  assumes "\<forall>e\<in>set xs \<union> set ys. spl_pfx_ok e" "pfxs_sorted xs" "pfxs_sorted ys"
  shows "pfxs_sorted (merge_list xs ys)"
  using assms
proof (induction xs ys rule: merge_list.induct)
  case (1 ys)
  then show ?case by simp
next
  case (2 x xs)
  have "set (merge_list xs []) \<subseteq> set xs" using set_merge_list_sub[of xs "[]"] by simp
  with 2 show ?case by (auto simp: pfxs_sorted_Cons)
next
  case (3 x xs y ys)
  have okx: "spl_pfx_ok x" and oky: "spl_pfx_ok y" using "3.prems" by auto
  have okxs: "\<forall>e\<in>set xs. spl_pfx_ok e" and okys: "\<forall>e\<in>set ys. spl_pfx_ok e"
    using "3.prems" by auto
  have sx: "\<forall>e\<in>set xs. spl_pfx_key x < spl_pfx_key e"
    using "3.prems" okx okxs by (auto simp: pfxs_sorted_Cons spl_pfx_cmp_lt)
  have sy: "\<forall>e\<in>set ys. spl_pfx_key y < spl_pfx_key e"
    using "3.prems" oky okys by (auto simp: pfxs_sorted_Cons spl_pfx_cmp_lt)
  have sxs: "pfxs_sorted xs" and sys: "pfxs_sorted ys"
    using "3.prems" by (auto simp: pfxs_sorted_Cons)
  consider (lt) "spl_pfx_cmp x y < 0" | (eq) "spl_pfx_cmp x y = 0"
    | (gt) "\<not> spl_pfx_cmp x y < 0" "spl_pfx_cmp x y \<noteq> 0" by blast
  then show ?case
  proof cases
    case lt
    then have k: "spl_pfx_key x < spl_pfx_key y" using okx oky by (simp add: spl_pfx_cmp_neg)
    have ih: "pfxs_sorted (merge_list xs (y # ys))"
      using "3.IH"(1)[OF lt] "3.prems" sxs by auto
    have "\<forall>e\<in>set (merge_list xs (y # ys)). spl_pfx_key x < spl_pfx_key e"
      using set_merge_list_sub[of xs "y # ys"] sx sy k by fastforce
    moreover have "\<forall>e\<in>set (merge_list xs (y # ys)). spl_pfx_ok e"
      using set_merge_list_sub[of xs "y # ys"] "3.prems" by auto
    ultimately show ?thesis using lt ih okx by (auto simp: pfxs_sorted_Cons spl_pfx_cmp_lt)
  next
    case eq
    then have k: "spl_pfx_key x = spl_pfx_key y" using okx oky by (simp add: spl_pfx_cmp_eq)
    have ih: "pfxs_sorted (merge_list xs ys)"
      using "3.IH"(2) eq "3.prems" sxs sys by auto
    have "\<forall>e\<in>set (merge_list xs ys). spl_pfx_key y < spl_pfx_key e"
      using set_merge_list_sub[of xs ys] sx sy k by fastforce
    moreover have "\<forall>e\<in>set (merge_list xs ys). spl_pfx_ok e"
      using set_merge_list_sub[of xs ys] "3.prems" by auto
    ultimately show ?thesis using eq ih oky by (auto simp: pfxs_sorted_Cons spl_pfx_cmp_lt)
  next
    case gt
    then have k: "spl_pfx_key y < spl_pfx_key x" using okx oky by (simp add: spl_pfx_cmp_key split: if_splits)
    have ih: "pfxs_sorted (merge_list (x # xs) ys)"
      using "3.IH"(3)[OF gt] "3.prems" sys by auto
    have "\<forall>e\<in>set (merge_list (x # xs) ys). spl_pfx_key y < spl_pfx_key e"
      using set_merge_list_sub[of "x # xs" ys] sx sy k by fastforce
    moreover have "\<forall>e\<in>set (merge_list (x # xs) ys). spl_pfx_ok e"
      using set_merge_list_sub[of "x # xs" ys] "3.prems" by auto
    ultimately show ?thesis using gt ih oky by (auto simp: pfxs_sorted_Cons spl_pfx_cmp_lt)
  qed
qed

lemma merge_list_absorb:
  assumes "\<forall>e\<in>set xs \<union> set ys. spl_pfx_ok e" "pfxs_sorted xs" "pfxs_sorted ys"
    and "\<forall>x\<in>set xs. \<exists>y\<in>set ys. spl_pfx_cmp x y = 0"
  shows "merge_list xs ys = ys"
  using assms
proof (induction xs ys rule: merge_list.induct)
  case (1 ys)
  then show ?case by simp
next
  case (2 x xs)
  have "x \<in> set (x # xs)" by simp
  with "2.prems"(4) have "\<exists>y\<in>set []. spl_pfx_cmp x y = 0" by blast
  then have False by simp
  then show ?case ..
next
  case (3 x xs y ys)
  have okx: "spl_pfx_ok x" and oky: "spl_pfx_ok y" using "3.prems" by auto
  have okxs: "\<forall>e\<in>set xs. spl_pfx_ok e" and okys: "\<forall>e\<in>set ys. spl_pfx_ok e"
    using "3.prems" by auto
  have sx: "\<forall>e\<in>set xs. spl_pfx_key x < spl_pfx_key e"
    using "3.prems" okx okxs by (auto simp: pfxs_sorted_Cons spl_pfx_cmp_lt)
  have sy: "\<forall>e\<in>set ys. spl_pfx_key y < spl_pfx_key e"
    using "3.prems" oky okys by (auto simp: pfxs_sorted_Cons spl_pfx_cmp_lt)
  have sxs: "pfxs_sorted xs" and sys: "pfxs_sorted ys"
    using "3.prems" by (auto simp: pfxs_sorted_Cons)
  have cov: "\<forall>a\<in>set (x # xs). \<exists>b\<in>set (y # ys). spl_pfx_key a = spl_pfx_key b"
    using "3.prems"(1,4) by (metis UnCI spl_pfx_cmp_eq)
  consider (lt) "spl_pfx_cmp x y < 0" | (eq) "spl_pfx_cmp x y = 0"
    | (gt) "\<not> spl_pfx_cmp x y < 0" "spl_pfx_cmp x y \<noteq> 0" by blast
  then show ?case
  proof cases
    case lt
    then have k: "spl_pfx_key x < spl_pfx_key y" using okx oky by (simp add: spl_pfx_cmp_neg)
    from cov obtain b where "b \<in> set (y # ys)" "spl_pfx_key x = spl_pfx_key b" by auto
    with k sy have False by auto
    then show ?thesis ..
  next
    case eq
    then have k: "spl_pfx_key x = spl_pfx_key y" using okx oky by (simp add: spl_pfx_cmp_eq)
    have "\<forall>a\<in>set xs. \<exists>b\<in>set ys. spl_pfx_cmp a b = 0"
    proof
      fix a assume a: "a \<in> set xs"
      with cov obtain b where b: "b \<in> set (y # ys)" "spl_pfx_key a = spl_pfx_key b" by auto
      from a sx k have "spl_pfx_key y < spl_pfx_key a" by auto
      with b have "b \<in> set ys" by auto
      with b a okxs okys show "\<exists>b\<in>set ys. spl_pfx_cmp a b = 0"
        by (auto simp: spl_pfx_cmp_eq)
    qed
    then have "merge_list xs ys = ys"
      using "3.IH"(2) eq "3.prems" sxs sys by auto
    then show ?thesis using eq by simp
  next
    case gt
    then have k: "spl_pfx_key y < spl_pfx_key x" using okx oky by (simp add: spl_pfx_cmp_key split: if_splits)
    have "\<forall>a\<in>set (x # xs). \<exists>b\<in>set ys. spl_pfx_cmp a b = 0"
    proof
      fix a assume a: "a \<in> set (x # xs)"
      with cov obtain b where b: "b \<in> set (y # ys)" "spl_pfx_key a = spl_pfx_key b" by auto
      from a sx k have "spl_pfx_key y < spl_pfx_key a" by auto
      with b have "b \<in> set ys" by auto
      moreover have "spl_pfx_ok a" using a okx okxs by auto
      ultimately show "\<exists>b\<in>set ys. spl_pfx_cmp a b = 0"
        using b okys by (auto simp: spl_pfx_cmp_eq)
    qed
    then have "merge_list (x # xs) ys = ys"
      using "3.IH"(3)[OF gt] "3.prems" sys by auto
    then show ?thesis using gt by simp
  qed
qed

lemma merge_list_set_canon:
  assumes "\<forall>e\<in>set xs \<union> set ys. spl_pfx_ok e \<and> spl_pfx_canon e"
  shows "set (merge_list xs ys) = set xs \<union> set ys"
proof -
  have "x \<in> set (merge_list xs ys)" if "x \<in> set xs" for x
  proof -
    from merge_list_incoming[OF that] obtain y where
      y: "y \<in> set (merge_list xs ys)" "spl_pfx_cmp x y = 0" by blast
    with set_merge_list_sub have "y \<in> set xs \<union> set ys" by blast
    with assms that y have "x = y"
      by (auto intro!: key_eq_canon simp: spl_pfx_cmp_eq)
    with y show ?thesis by simp
  qed
  with set_merge_list_old[of ys xs] set_merge_list_sub[of xs ys] show ?thesis by blast
qed

section \<open>Properties of \<open>spl_insert_vsps\<close>\<close>

lemma merge_list_Nil2: "merge_list xs [] = xs"
  by (induction xs) auto

lemma spl_merge_loop_start: "spl_merge_loop ins 0 0 ps = Some (merge_list ins ps)"
  using spl_merge_loop_list[of 0 ps ins 0] by simp

lemma spl_insert_vsps_new:
  assumes "tree st (asid s) = None"
  shows "spl_insert_vsps repo_id repo_byid st s rp =
     Some (st\<lparr>tree := (tree st)(asid s \<mapsto>
                \<lparr>vsp_asid = asid s, prefixes = pfxs s, vsp_expires = expires s,
                 vsp_talid = talid s,
                 repoid = (case rp of None \<Rightarrow> 0 | Some r \<Rightarrow> repo_id r)\<rparr>),
              stats := stats st @
                [Repo_stat_inc rp (talid s) RTYPE_SPL STYPE_UNIQUE,
                 Repo_stat_inc rp (talid s) RTYPE_SPL STYPE_TOTAL]\<rparr>)"
  using assms
  by (simp add: spl_insert_vsps_def spl_merge_loop_start merge_list_Nil2 Let_def)

lemma spl_insert_vsps_found:
  assumes "tree st (asid s) = Some found"
  shows "spl_insert_vsps repo_id repo_byid st s rp =
     Some (st\<lparr>tree := (tree st)(asid s \<mapsto>
                (if vsp_expires found <s expires s
                 then found\<lparr>vsp_expires := expires s, vsp_talid := talid s,
                        repoid := (case rp of None \<Rightarrow> 0 | Some r \<Rightarrow> repo_id r)\<rparr>
                 else found)\<lparr>prefixes := merge_list (pfxs s) (prefixes found)\<rparr>),
              stats := (if vsp_expires found <s expires s
                 then stats st @
                   [Repo_stat_inc (repo_byid (repoid found)) (vsp_talid found)
                      RTYPE_SPL STYPE_DEC_UNIQUE,
                    Repo_stat_inc rp (talid s) RTYPE_SPL STYPE_UNIQUE]
                 else stats st) @ [Repo_stat_inc rp (talid s) RTYPE_SPL STYPE_TOTAL]\<rparr>)"
  using assms
  by (simp add: spl_insert_vsps_def spl_merge_loop_start Let_def)

lemma spl_insert_vsps_prefixes:
  "\<exists>st'. spl_insert_vsps repo_id repo_byid st s rp = Some st' \<and>
     tree st' (asid s) \<noteq> None \<and>
     (\<forall>a. a \<noteq> asid s \<longrightarrow> tree st' a = tree st a) \<and>
     vsp_prefixes (tree st') (asid s) = merge_list (pfxs s) (vsp_prefixes (tree st) (asid s))"
proof (cases "tree st (asid s)")
  case None
  then show ?thesis
    by (simp add: spl_insert_vsps_new vsp_prefixes_def merge_list_Nil2)
next
  case (Some found)
  then show ?thesis
    by (simp add: spl_insert_vsps_found vsp_prefixes_def)
qed

lemma vsp_tree_ok_insert:
  assumes "vsp_tree_ok (tree st)" "spl_validated s"
    and "spl_insert_vsps repo_id repo_byid st s rp = Some st'"
  shows "vsp_tree_ok (tree st')"
proof -
  let ?old = "vsp_prefixes (tree st) (asid s)"
  from spl_insert_vsps_prefixes[of repo_id repo_byid st s rp] assms(3) have
    frame: "\<forall>a. a \<noteq> asid s \<longrightarrow> tree st' a = tree st a"
    and new: "vsp_prefixes (tree st') (asid s) = merge_list (pfxs s) ?old"
    by auto
  have old_ok: "(\<forall>e\<in>set ?old. spl_pfx_ok e) \<and> pfxs_sorted ?old"
    using assms(1) by (auto simp: vsp_tree_ok_def vsp_ok_def vsp_prefixes_def pfxs_sorted_def
        split: option.splits)
  have new_ok: "\<forall>e\<in>set (pfxs s). spl_pfx_ok e" and new_sorted: "pfxs_sorted (pfxs s)"
    using assms(2) by (auto simp: spl_validated_def list_all_iff)
  have all_ok: "\<forall>e\<in>set (pfxs s) \<union> set ?old. spl_pfx_ok e"
    using new_ok old_ok by auto
  have srt: "pfxs_sorted (merge_list (pfxs s) ?old)"
    using merge_list_sorted[OF all_ok new_sorted] old_ok by simp
  have oks: "\<forall>e\<in>set (merge_list (pfxs s) ?old). spl_pfx_ok e"
    using set_merge_list_sub[of "pfxs s" ?old] all_ok by blast
  show ?thesis
    unfolding vsp_tree_ok_def
  proof (intro allI impI)
    fix a v assume av: "tree st' a = Some v"
    show "vsp_ok v"
    proof (cases "a = asid s")
      case True
      with av new have "prefixes v = merge_list (pfxs s) ?old"
        by (simp add: vsp_prefixes_def)
      with srt oks show ?thesis by (simp add: vsp_ok_def)
    next
      case False
      with frame av have "tree st a = Some v" by simp
      with assms(1) show ?thesis by (simp add: vsp_tree_ok_def)
    qed
  qed
qed

text \<open>
  The invariant holds at all times: it holds of the empty database, and every run of
  merges of validated SPLs from a database that satisfies it ends in one that does.
\<close>

lemma vsp_tree_ok_empty: "vsp_tree_ok (\<lambda>_. None)"
  by (simp add: vsp_tree_ok_def)

lemma spl_insert_all_ok:
  assumes "vsp_tree_ok (tree st)" "list_all (\<lambda>x. spl_validated (fst x)) xs"
  shows "\<exists>st'. spl_insert_all repo_id repo_byid st xs = Some st' \<and> vsp_tree_ok (tree st')"
  using assms
proof (induction xs arbitrary: st)
  case Nil
  then show ?case by simp
next
  case (Cons x xs)
  obtain s rp where x: "x = (s, rp)" by (cases x)
  from spl_insert_vsps_prefixes[of repo_id repo_byid st s rp] obtain st1 where
    r: "spl_insert_vsps repo_id repo_byid st s rp = Some st1" by blast
  from Cons.prems x have "spl_validated s" and rest: "list_all (\<lambda>x. spl_validated (fst x)) xs"
    by simp_all
  from vsp_tree_ok_insert[OF Cons.prems(1) this(1) r] have "vsp_tree_ok (tree st1)" .
  from Cons.IH[OF this rest] show ?case by (simp add: x r)
qed

lemma memcmp_unfold:
  "memcmp (x # xs) (y # ys) n =
     (if n = 0 then 0 else if x < y then - 1 else if y < x then 1 else memcmp xs ys (n - 1))"
  by (cases n) auto

lemma pfxs_sorted_grouped:
  assumes "pfxs_sorted xs"
  shows "pfxs_grouped xs"
proof -
  have imp: "spl_pfx_cmp a b = - 1 \<Longrightarrow> afi_val (afi a) \<le> afi_val (afi b)" for a b
    by (auto simp: spl_pfx_cmp_def split: if_splits)
  show ?thesis unfolding pfxs_grouped_def
    by (rule sorted_wrt_mono_rel[OF _ assms[unfolded pfxs_sorted_def]]) (rule imp)
qed

text \<open>
  Claim C1. Merging a validated SPL (well-formed entries, strictly increasing) into a
  database that satisfies the invariant returns a database that satisfies it again. The
  target record exists afterwards; its prefix list is strictly increasing per
  \<open>spl_pfx_cmp\<close>, hence grouped by family; it still holds every entry it held
  before; and every incoming entry has an entry in it that compares equal. For entries
  in canonical form the new set of entries is exactly the union. Nothing here depends on
  the expirations, that is, on whether the metadata was superseded.
\<close>

theorem spl_insert_vsps_invariant:
  assumes "vsp_tree_ok (tree st)"
    and "spl_validated s"
  shows "\<exists>st'. spl_insert_vsps repo_id repo_byid st s rp = Some st' \<and>
     vsp_tree_ok (tree st') \<and>
     tree st' (asid s) \<noteq> None \<and>
     pfxs_sorted (vsp_prefixes (tree st') (asid s)) \<and>
     pfxs_grouped (vsp_prefixes (tree st') (asid s)) \<and>
     set (vsp_prefixes (tree st) (asid s)) \<subseteq> set (vsp_prefixes (tree st') (asid s)) \<and>
     (\<forall>x\<in>set (pfxs s). \<exists>y\<in>set (vsp_prefixes (tree st') (asid s)). spl_pfx_cmp x y = 0) \<and>
     (list_all spl_pfx_canon (vsp_prefixes (tree st) (asid s) @ pfxs s) \<longrightarrow>
        set (vsp_prefixes (tree st') (asid s)) =
          set (vsp_prefixes (tree st) (asid s)) \<union> set (pfxs s))"
proof -
  let ?old = "vsp_prefixes (tree st) (asid s)"
  from spl_insert_vsps_prefixes[of repo_id repo_byid st s rp] obtain st' where
    r: "spl_insert_vsps repo_id repo_byid st s rp = Some st'"
    and ne: "tree st' (asid s) \<noteq> None"
    and frame: "\<forall>a. a \<noteq> asid s \<longrightarrow> tree st' a = tree st a"
    and new: "vsp_prefixes (tree st') (asid s) = merge_list (pfxs s) ?old"
    by blast
  have old_ok: "(\<forall>e\<in>set ?old. spl_pfx_ok e) \<and> pfxs_sorted ?old"
    using assms(1) by (auto simp: vsp_tree_ok_def vsp_ok_def vsp_prefixes_def pfxs_sorted_def
        split: option.splits)
  have new_ok: "\<forall>e\<in>set (pfxs s). spl_pfx_ok e" and new_sorted: "pfxs_sorted (pfxs s)"
    using assms(2) by (auto simp: spl_validated_def list_all_iff)
  have all_ok: "\<forall>e\<in>set (pfxs s) \<union> set ?old. spl_pfx_ok e"
    using new_ok old_ok by auto
  have srt: "pfxs_sorted (merge_list (pfxs s) ?old)"
    using merge_list_sorted[OF all_ok new_sorted] old_ok by simp
  have oks: "\<forall>e\<in>set (merge_list (pfxs s) ?old). spl_pfx_ok e"
    using set_merge_list_sub[of "pfxs s" ?old] all_ok by blast
  have tok: "vsp_tree_ok (tree st')"
    by (rule vsp_tree_ok_insert[OF assms r])
  have canon: "list_all spl_pfx_canon (?old @ pfxs s) \<longrightarrow>
      set (merge_list (pfxs s) ?old) = set ?old \<union> set (pfxs s)"
    using merge_list_set_canon[of "pfxs s" ?old] all_ok by (auto simp: list_all_iff)
  show ?thesis
  proof (intro exI[of _ st'] conjI)
    show "spl_insert_vsps repo_id repo_byid st s rp = Some st'" by (rule r)
    show "vsp_tree_ok (tree st')" by (rule tok)
    show "tree st' (asid s) \<noteq> None" by (rule ne)
    show "pfxs_sorted (vsp_prefixes (tree st') (asid s))" using srt by (simp add: new)
    show "pfxs_grouped (vsp_prefixes (tree st') (asid s))"
      using pfxs_sorted_grouped[OF srt] by (simp add: new)
    show "set ?old \<subseteq> set (vsp_prefixes (tree st') (asid s))"
      using set_merge_list_old[of ?old "pfxs s"] by (simp add: new)
    show "\<forall>x\<in>set (pfxs s). \<exists>y\<in>set (vsp_prefixes (tree st') (asid s)). spl_pfx_cmp x y = 0"
      using merge_list_incoming[of _ "pfxs s" ?old] by (simp add: new)
    show "list_all spl_pfx_canon (?old @ pfxs s) \<longrightarrow>
        set (vsp_prefixes (tree st') (asid s)) = set ?old \<union> set (pfxs s)"
      using canon by (simp add: new)
  qed
qed

theorem spl_insert_vsps_invariant_witness:
  "vsp_tree_ok (tree ex_state1) \<and>
   spl_validated ex_spl2 \<and>
   list_all spl_pfx_canon (vsp_prefixes (tree ex_state1) (asid ex_spl2) @ pfxs ex_spl2) \<and>
   (\<exists>st'. spl_insert_vsps of_nat (\<lambda>_. None) ex_state1 ex_spl2 None = Some st' \<and>
      vsp_tree_ok (tree st') \<and>
      vsp_prefixes (tree st') 65000 =
        [ipv4_pfx 10 0 0 0 8, ipv4_pfx 10 1 0 0 16, ipv4_pfx 10 2 0 0 16] \<and>
      pfxs_sorted (vsp_prefixes (tree st') 65000) \<and>
      pfxs_grouped (vsp_prefixes (tree st') 65000) \<and>
      set (vsp_prefixes (tree st') 65000) =
        set (vsp_prefixes (tree ex_state1) 65000) \<union> set (pfxs ex_spl2))"
proof -
  have h1: "vsp_tree_ok (tree ex_state1)"
    by (simp add: vsp_tree_ok_def ex_state1_def vsp_ok_def ex_vsp1_def pfxs_sorted_def
        spl_pfx_ok_def ipv4_pfx_def spl_pfx_cmp_def prefix_cmp_def memcmp_unfold)
  have h2: "spl_validated ex_spl2"
    by (simp add: spl_validated_def ex_spl2_def spl_calloc_def spl_pfx_ok_def ipv4_pfx_def
        pfxs_sorted_def)
  have a: "asid ex_spl2 = 65000" by (simp add: ex_spl2_def spl_calloc_def)
  have h3: "list_all spl_pfx_canon (vsp_prefixes (tree ex_state1) (asid ex_spl2) @ pfxs ex_spl2)"
    by (simp add: a vsp_prefixes_def ex_state1_def ex_vsp1_def ex_spl2_def spl_calloc_def
        spl_pfx_canon_def ipv4_pfx_def)
  have f: "tree ex_state1 (asid ex_spl2) = Some ex_vsp1"
    by (simp add: ex_state1_def a)
  have v: "spl_insert_vsps of_nat (\<lambda>_. None) ex_state1 ex_spl2 None = Some st' \<Longrightarrow>
      vsp_prefixes (tree st') 65000 =
        [ipv4_pfx 10 0 0 0 8, ipv4_pfx 10 1 0 0 16, ipv4_pfx 10 2 0 0 16]" for st'
    unfolding spl_insert_vsps_found[OF f]
    by (auto simp: a vsp_prefixes_def ex_spl2_def spl_calloc_def ex_vsp1_def
        ipv4_pfx_def spl_pfx_cmp_def prefix_cmp_def memcmp_unfold)
  from spl_insert_vsps_invariant[OF h1 h2, of of_nat "\<lambda>_. None" None] obtain st' where
    r: "spl_insert_vsps of_nat (\<lambda>_. None) ex_state1 ex_spl2 None = Some st'"
    and t: "vsp_tree_ok (tree st')"
    and so: "pfxs_sorted (vsp_prefixes (tree st') (asid ex_spl2))"
    and g: "pfxs_grouped (vsp_prefixes (tree st') (asid ex_spl2))"
    and u: "list_all spl_pfx_canon (vsp_prefixes (tree ex_state1) (asid ex_spl2) @ pfxs ex_spl2) \<longrightarrow>
        set (vsp_prefixes (tree st') (asid ex_spl2)) =
          set (vsp_prefixes (tree ex_state1) (asid ex_spl2)) \<union> set (pfxs ex_spl2)"
    by blast
  from u h3 have u': "set (vsp_prefixes (tree st') 65000) =
        set (vsp_prefixes (tree ex_state1) 65000) \<union> set (pfxs ex_spl2)"
    by (simp only: a)
  from r t v[OF r] so g u' have "\<exists>st'. spl_insert_vsps of_nat (\<lambda>_. None) ex_state1 ex_spl2 None = Some st' \<and>
      vsp_tree_ok (tree st') \<and>
      vsp_prefixes (tree st') 65000 =
        [ipv4_pfx 10 0 0 0 8, ipv4_pfx 10 1 0 0 16, ipv4_pfx 10 2 0 0 16] \<and>
      pfxs_sorted (vsp_prefixes (tree st') 65000) \<and>
      pfxs_grouped (vsp_prefixes (tree st') 65000) \<and>
      set (vsp_prefixes (tree st') 65000) =
        set (vsp_prefixes (tree ex_state1) 65000) \<union> set (pfxs ex_spl2)"
    unfolding a by (intro exI[of _ st'] conjI)
  with h1 h2 h3 show ?thesis by (intro conjI)
qed

text \<open>
  Claim C3, as the code has it. One iteration of the merge loop, with \<open>i\<close> the index
  into the incoming list and \<open>j\<close> the index into the record's list: when the record's
  list is exhausted or the incoming entry is strictly less than entry \<open>j\<close>, the incoming
  entry is inserted at position \<open>j\<close> (the tail moves one slot to the right) and both
  indices are incremented, so that \<open>j\<close> designates the same existing entry as before;
  when the two entries compare equal, nothing is inserted and both indices are
  incremented; when the incoming entry is strictly greater, only \<open>j\<close> is incremented.
\<close>

theorem spl_merge_step_cases:
  "(j = length ps \<or> j < length ps \<and> spl_pfx_cmp (ins ! i) (ps ! j) < 0 \<longrightarrow>
      spl_merge_step ins (i, j, ps) = (i + 1, j + 1, take j ps @ ins ! i # drop j ps)) \<and>
   (j < length ps \<and> spl_pfx_cmp (ins ! i) (ps ! j) = 0 \<longrightarrow>
      spl_merge_step ins (i, j, ps) = (i + 1, j + 1, ps)) \<and>
   (j < length ps \<and> spl_pfx_cmp (ins ! i) (ps ! j) > 0 \<longrightarrow>
      spl_merge_step ins (i, j, ps) = (i, j + 1, ps))"
  by (auto simp: spl_merge_step_def insert_vsp_def)

theorem spl_merge_step_cases_witness:
  "spl_merge_step [ipv4_pfx 10 1 0 0 16] (0, 1, [ipv4_pfx 10 0 0 0 8, ipv4_pfx 10 2 0 0 16]) =
     (1, 2, [ipv4_pfx 10 0 0 0 8, ipv4_pfx 10 1 0 0 16, ipv4_pfx 10 2 0 0 16]) \<and>
   spl_merge_step [ipv4_pfx 10 1 0 0 16] (0, 0, [ipv4_pfx 10 1 0 0 16, ipv4_pfx 10 2 0 0 16]) =
     (1, 1, [ipv4_pfx 10 1 0 0 16, ipv4_pfx 10 2 0 0 16]) \<and>
   spl_merge_step [ipv4_pfx 10 1 0 0 16] (0, 0, [ipv4_pfx 10 0 0 0 8, ipv4_pfx 10 2 0 0 16]) =
     (0, 1, [ipv4_pfx 10 0 0 0 8, ipv4_pfx 10 2 0 0 16]) \<and>
   spl_merge_step [ipv4_pfx 10 1 0 0 16] (0, 1, [ipv4_pfx 10 0 0 0 8]) =
     (1, 2, [ipv4_pfx 10 0 0 0 8, ipv4_pfx 10 1 0 0 16])"
proof -
  let ?a = "ipv4_pfx 10 0 0 0 8" and ?b = "ipv4_pfx 10 1 0 0 16" and ?c = "ipv4_pfx 10 2 0 0 16"
  have lt: "spl_pfx_cmp ?b ?c < 0" and eq: "spl_pfx_cmp ?b ?b = 0" and gt: "spl_pfx_cmp ?b ?a > 0"
    by (simp_all add: ipv4_pfx_def spl_pfx_cmp_def prefix_cmp_def memcmp_unfold)
  show ?thesis
    using spl_merge_step_cases[of 1 "[?a, ?c]" "[?b]" 0]
      spl_merge_step_cases[of 0 "[?b, ?c]" "[?b]" 0]
      spl_merge_step_cases[of 0 "[?a, ?c]" "[?b]" 0]
      spl_merge_step_cases[of 1 "[?a]" "[?b]" 0] lt eq gt
    by simp
qed

theorem spl_merge_step_equal_counterexample:
  "spl_pfx_cmp (ipv4_pfx 10 1 0 0 16) (ipv4_pfx 10 1 0 0 16) = 0 \<and>
   spl_merge_step [ipv4_pfx 10 1 0 0 16] (0, 0, [ipv4_pfx 10 1 0 0 16, ipv4_pfx 10 2 0 0 16]) =
     (1, 1, [ipv4_pfx 10 1 0 0 16, ipv4_pfx 10 2 0 0 16]) \<and>
   spl_merge_step [ipv4_pfx 10 1 0 0 16] (0, 0, [ipv4_pfx 10 1 0 0 16, ipv4_pfx 10 2 0 0 16]) \<noteq>
     (1, 0, [ipv4_pfx 10 1 0 0 16, ipv4_pfx 10 2 0 0 16])"
  by (simp add: spl_merge_step_def spl_pfx_cmp_refl)

lemma spl_insert_vsps_result:
  "\<exists>st' v. spl_insert_vsps repo_id repo_byid st s rp = Some st' \<and>
     tree st' (asid s) = Some v \<and>
     prefixes v = merge_list (pfxs s) (vsp_prefixes (tree st) (asid s)) \<and>
     vsp_meta v = (if superseded_by (tree st) s then spl_meta repo_id s rp
                   else vsp_meta (the (tree st (asid s))))"
proof (cases "tree st (asid s)")
  case None
  then show ?thesis
    by (simp add: spl_insert_vsps_new vsp_prefixes_def vsp_meta_def spl_meta_def
        superseded_by_def merge_list_Nil2)
next
  case (Some found)
  then show ?thesis
    by (simp add: spl_insert_vsps_found vsp_prefixes_def vsp_meta_def spl_meta_def
        superseded_by_def)
qed

text \<open>
  Claim C2. When a record exists for the incoming SPL's AS id, the record's trust-anchor
  id, repository id and expiration after the call are the incoming object's if the
  incoming expiration is strictly later (signed comparison) than the record's, and the
  record's own otherwise. Starting without a record for the AS id, or with one that
  expires strictly before the later object, merging two objects of that AS id, the first
  expiring strictly before the second (100 and 200 in the example that follows), in
  either order, ends with the later-expiring object's metadata, and every prefix of both
  objects has an equal entry in the record; for well-formed canonical entries the record
  holds exactly the prefixes it held before and those of both objects.
\<close>

theorem spl_insert_vsps_supersede:
  "(\<forall>found. tree st (asid s) = Some found \<longrightarrow>
      (\<exists>st' v. spl_insert_vsps repo_id repo_byid st s rp = Some st' \<and>
         tree st' (asid s) = Some v \<and>
         vsp_meta v = (if vsp_expires found <s expires s then spl_meta repo_id s rp
                       else vsp_meta found))) \<and>
   (superseded_by (tree st) s2 \<and> asid s2 = asid s1 \<and> expires s1 <s expires s2 \<longrightarrow>
      (\<exists>st1 st12 v12 st2 st21 v21.
         spl_insert_vsps repo_id repo_byid st s1 rp1 = Some st1 \<and>
         spl_insert_vsps repo_id repo_byid st1 s2 rp2 = Some st12 \<and>
         tree st12 (asid s1) = Some v12 \<and>
         vsp_meta v12 = spl_meta repo_id s2 rp2 \<and>
         list_all (\<lambda>x. list_ex (\<lambda>y. spl_pfx_cmp x y = 0) (prefixes v12)) (pfxs s1 @ pfxs s2) \<and>
         spl_insert_vsps repo_id repo_byid st s2 rp2 = Some st2 \<and>
         spl_insert_vsps repo_id repo_byid st2 s1 rp1 = Some st21 \<and>
         tree st21 (asid s1) = Some v21 \<and>
         vsp_meta v21 = spl_meta repo_id s2 rp2 \<and>
         list_all (\<lambda>x. list_ex (\<lambda>y. spl_pfx_cmp x y = 0) (prefixes v21)) (pfxs s1 @ pfxs s2) \<and>
         (list_all (\<lambda>e. spl_pfx_ok e \<and> spl_pfx_canon e)
            (vsp_prefixes (tree st) (asid s1) @ pfxs s1 @ pfxs s2) \<longrightarrow>
            set (prefixes v12) =
              set (vsp_prefixes (tree st) (asid s1)) \<union> set (pfxs s1) \<union> set (pfxs s2) \<and>
            set (prefixes v21) =
              set (vsp_prefixes (tree st) (asid s1)) \<union> set (pfxs s1) \<union> set (pfxs s2))))"
proof (intro conjI allI impI)
  fix found assume "tree st (asid s) = Some found"
  then show "\<exists>st' v. spl_insert_vsps repo_id repo_byid st s rp = Some st' \<and>
         tree st' (asid s) = Some v \<and>
         vsp_meta v = (if vsp_expires found <s expires s then spl_meta repo_id s rp
                       else vsp_meta found)"
    by (simp add: spl_insert_vsps_found vsp_meta_def spl_meta_def)
next
  assume h: "superseded_by (tree st) s2 \<and> asid s2 = asid s1 \<and> expires s1 <s expires s2"
  then have sup: "superseded_by (tree st) s2" and a: "asid s2 = asid s1"
    and lt: "expires s1 <s expires s2" by auto
  let ?old = "vsp_prefixes (tree st) (asid s1)"
  let ?m1 = "merge_list (pfxs s1) ?old"
  let ?m2 = "merge_list (pfxs s2) ?old"
  have nlt: "\<not> expires s2 <s expires s1"
    using lt by (simp add: word_sless_alt)
  from spl_insert_vsps_result[of repo_id repo_byid st s1 rp1] obtain st1 v1 where
    st1: "spl_insert_vsps repo_id repo_byid st s1 rp1 = Some st1"
    and t1: "tree st1 (asid s1) = Some v1"
    and p1: "prefixes v1 = ?m1"
    and m1: "vsp_meta v1 = (if superseded_by (tree st) s1 then spl_meta repo_id s1 rp1
                   else vsp_meta (the (tree st (asid s1))))"
    by blast
  have e1: "vsp_expires v1 <s expires s2"
  proof (cases "superseded_by (tree st) s1")
    case True
    with m1 have "vsp_expires v1 = expires s1" by (simp add: vsp_meta_def spl_meta_def)
    with lt show ?thesis by simp
  next
    case False
    then obtain f where f: "tree st (asid s1) = Some f"
      by (auto simp: superseded_by_def split: option.splits)
    with False m1 have "vsp_expires v1 = vsp_expires f" by (simp add: vsp_meta_def)
    with sup f a show ?thesis by (simp add: superseded_by_def)
  qed
  have sup1: "superseded_by (tree st1) s2"
    using t1 e1 a by (simp add: superseded_by_def)
  from spl_insert_vsps_result[of repo_id repo_byid st1 s2 rp2] obtain st12 v12 where
    st12: "spl_insert_vsps repo_id repo_byid st1 s2 rp2 = Some st12"
    and t12: "tree st12 (asid s1) = Some v12"
    and p12: "prefixes v12 = merge_list (pfxs s2) ?m1"
    and m12: "vsp_meta v12 = spl_meta repo_id s2 rp2"
    using sup1 t1 p1 a by (auto simp: vsp_prefixes_def)
  from spl_insert_vsps_result[of repo_id repo_byid st s2 rp2] obtain st2 v2 where
    st2: "spl_insert_vsps repo_id repo_byid st s2 rp2 = Some st2"
    and t2: "tree st2 (asid s1) = Some v2"
    and p2: "prefixes v2 = ?m2"
    and m2: "vsp_meta v2 = spl_meta repo_id s2 rp2"
    using sup a by auto
  have e2: "vsp_expires v2 = expires s2" using m2 by (simp add: vsp_meta_def spl_meta_def)
  have nsup: "\<not> superseded_by (tree st2) s1"
    using t2 e2 nlt by (simp add: superseded_by_def)
  from spl_insert_vsps_result[of repo_id repo_byid st2 s1 rp1] obtain st21 v21 where
    st21: "spl_insert_vsps repo_id repo_byid st2 s1 rp1 = Some st21"
    and t21: "tree st21 (asid s1) = Some v21"
    and p21: "prefixes v21 = merge_list (pfxs s1) ?m2"
    and m21: "vsp_meta v21 = spl_meta repo_id s2 rp2"
    using nsup t2 p2 m2 by (auto simp: vsp_prefixes_def)
  have c12: "list_all (\<lambda>x. list_ex (\<lambda>y. spl_pfx_cmp x y = 0) (prefixes v12)) (pfxs s1 @ pfxs s2)"
  proof -
    have "\<exists>y\<in>set (merge_list (pfxs s2) ?m1). spl_pfx_cmp x y = 0" if "x \<in> set (pfxs s1)" for x
      using merge_list_incoming[OF that, of ?old] set_merge_list_old[of ?m1 "pfxs s2"] by blast
    moreover have "\<exists>y\<in>set (merge_list (pfxs s2) ?m1). spl_pfx_cmp x y = 0"
      if "x \<in> set (pfxs s2)" for x
      using merge_list_incoming[OF that, of ?m1] by blast
    ultimately show ?thesis by (auto simp: p12 list_all_iff list_ex_iff)
  qed
  have c21: "list_all (\<lambda>x. list_ex (\<lambda>y. spl_pfx_cmp x y = 0) (prefixes v21)) (pfxs s1 @ pfxs s2)"
  proof -
    have "\<exists>y\<in>set (merge_list (pfxs s1) ?m2). spl_pfx_cmp x y = 0" if "x \<in> set (pfxs s2)" for x
      using merge_list_incoming[OF that, of ?old] set_merge_list_old[of ?m2 "pfxs s1"] by blast
    moreover have "\<exists>y\<in>set (merge_list (pfxs s1) ?m2). spl_pfx_cmp x y = 0"
      if "x \<in> set (pfxs s1)" for x
      using merge_list_incoming[OF that, of ?m2] by blast
    ultimately show ?thesis by (auto simp: p21 list_all_iff list_ex_iff)
  qed
  have u: "list_all (\<lambda>e. spl_pfx_ok e \<and> spl_pfx_canon e) (?old @ pfxs s1 @ pfxs s2) \<longrightarrow>
            set (prefixes v12) = set ?old \<union> set (pfxs s1) \<union> set (pfxs s2) \<and>
            set (prefixes v21) = set ?old \<union> set (pfxs s1) \<union> set (pfxs s2)"
  proof
    assume c: "list_all (\<lambda>e. spl_pfx_ok e \<and> spl_pfx_canon e) (?old @ pfxs s1 @ pfxs s2)"
    then have c1: "\<forall>e\<in>set (pfxs s1) \<union> set ?old. spl_pfx_ok e \<and> spl_pfx_canon e"
      and c2: "\<forall>e\<in>set (pfxs s2) \<union> set ?old. spl_pfx_ok e \<and> spl_pfx_canon e"
      by (auto simp: list_all_iff)
    have s1: "set ?m1 = set (pfxs s1) \<union> set ?old" by (rule merge_list_set_canon[OF c1])
    have s2: "set ?m2 = set (pfxs s2) \<union> set ?old" by (rule merge_list_set_canon[OF c2])
    have "\<forall>e\<in>set (pfxs s2) \<union> set ?m1. spl_pfx_ok e \<and> spl_pfx_canon e"
      using c1 c2 s1 by auto
    from merge_list_set_canon[OF this]
    have s12: "set (merge_list (pfxs s2) ?m1) = set (pfxs s2) \<union> set ?m1" .
    have "\<forall>e\<in>set (pfxs s1) \<union> set ?m2. spl_pfx_ok e \<and> spl_pfx_canon e"
      using c1 c2 s2 by auto
    from merge_list_set_canon[OF this]
    have s21: "set (merge_list (pfxs s1) ?m2) = set (pfxs s1) \<union> set ?m2" .
    show "set (prefixes v12) = set ?old \<union> set (pfxs s1) \<union> set (pfxs s2) \<and>
            set (prefixes v21) = set ?old \<union> set (pfxs s1) \<union> set (pfxs s2)"
      using s1 s2 s12 s21 by (auto simp: p12 p21)
  qed
  show "\<exists>st1 st12 v12 st2 st21 v21.
         spl_insert_vsps repo_id repo_byid st s1 rp1 = Some st1 \<and>
         spl_insert_vsps repo_id repo_byid st1 s2 rp2 = Some st12 \<and>
         tree st12 (asid s1) = Some v12 \<and>
         vsp_meta v12 = spl_meta repo_id s2 rp2 \<and>
         list_all (\<lambda>x. list_ex (\<lambda>y. spl_pfx_cmp x y = 0) (prefixes v12)) (pfxs s1 @ pfxs s2) \<and>
         spl_insert_vsps repo_id repo_byid st s2 rp2 = Some st2 \<and>
         spl_insert_vsps repo_id repo_byid st2 s1 rp1 = Some st21 \<and>
         tree st21 (asid s1) = Some v21 \<and>
         vsp_meta v21 = spl_meta repo_id s2 rp2 \<and>
         list_all (\<lambda>x. list_ex (\<lambda>y. spl_pfx_cmp x y = 0) (prefixes v21)) (pfxs s1 @ pfxs s2) \<and>
         (list_all (\<lambda>e. spl_pfx_ok e \<and> spl_pfx_canon e) (?old @ pfxs s1 @ pfxs s2) \<longrightarrow>
            set (prefixes v12) = set ?old \<union> set (pfxs s1) \<union> set (pfxs s2) \<and>
            set (prefixes v21) = set ?old \<union> set (pfxs s1) \<union> set (pfxs s2))"
    using st1 st12 t12 m12 c12 st2 st21 t21 m21 c21 u by blast
qed

theorem spl_insert_vsps_supersede_witness:
  "tree ex_state1 (asid ex_spl2) = Some ex_vsp1 \<and>
   vsp_expires ex_vsp1 <s expires ex_spl2 \<and>
   (\<exists>st' v. spl_insert_vsps of_nat (\<lambda>_. None) ex_state1 ex_spl2 (Some (3::nat)) = Some st' \<and>
      tree st' 65000 = Some v \<and> vsp_meta v = (2, 3, 200)) \<and>
   tree (ex_state1\<lparr>stats := []\<rparr>) (asid ex_spl1) = Some ex_vsp1 \<and>
   \<not> vsp_expires ex_vsp1 <s expires ex_spl1 \<and>
   (\<exists>st' v. spl_insert_vsps of_nat (\<lambda>_. None) (ex_state1\<lparr>stats := []\<rparr>) ex_spl1 (Some (3::nat)) =
        Some st' \<and>
      tree st' 65000 = Some v \<and> vsp_meta v = (1, 7, 100)) \<and>
   superseded_by (tree ex_state0) ex_spl2 \<and> asid ex_spl2 = asid ex_spl1 \<and>
   expires ex_spl1 <s expires ex_spl2 \<and>
   list_all (\<lambda>e. spl_pfx_ok e \<and> spl_pfx_canon e)
     (vsp_prefixes (tree ex_state0) (asid ex_spl1) @ pfxs ex_spl1 @ pfxs ex_spl2) \<and>
   (\<exists>st1 st12 v12 st2 st21 v21.
      spl_insert_vsps of_nat (\<lambda>_. None) ex_state0 ex_spl1 None = Some st1 \<and>
      spl_insert_vsps of_nat (\<lambda>_. None) st1 ex_spl2 (Some 3) = Some st12 \<and>
      tree st12 65000 = Some v12 \<and> vsp_meta v12 = (2, 3, 200) \<and>
      spl_insert_vsps of_nat (\<lambda>_. None) ex_state0 ex_spl2 (Some 3) = Some st2 \<and>
      spl_insert_vsps of_nat (\<lambda>_. None) st2 ex_spl1 None = Some st21 \<and>
      tree st21 65000 = Some v21 \<and> vsp_meta v21 = (2, 3, 200) \<and>
      set (prefixes v12) = set (pfxs ex_spl1) \<union> set (pfxs ex_spl2) \<and>
      set (prefixes v21) = set (pfxs ex_spl1) \<union> set (pfxs ex_spl2))"
proof -
  have a2: "asid ex_spl2 = 65000" and a1: "asid ex_spl1 = 65000"
    by (simp_all add: ex_spl1_def ex_spl2_def spl_calloc_def)
  have h1: "tree ex_state1 (asid ex_spl2) = Some ex_vsp1"
    by (simp add: ex_state1_def a2)
  have h1': "tree (ex_state1\<lparr>stats := []\<rparr>) (asid ex_spl1) = Some ex_vsp1"
    by (simp add: ex_state1_def a1)
  have h2: "superseded_by (tree ex_state0) ex_spl2"
    by (simp add: superseded_by_def ex_state0_def)
  have old: "vsp_prefixes (tree ex_state0) a = []" for a
    by (simp add: vsp_prefixes_def ex_state0_def)
  have h3: "asid ex_spl2 = asid ex_spl1" by (simp add: a1 a2)
  have h4: "expires ex_spl1 <s expires ex_spl2"
    by (simp add: ex_spl1_def ex_spl2_def spl_calloc_def word_sless_alt)
  have h5: "list_all (\<lambda>e. spl_pfx_ok e \<and> spl_pfx_canon e)
      (vsp_prefixes (tree ex_state0) (asid ex_spl1) @ pfxs ex_spl1 @ pfxs ex_spl2)"
    by (simp add: old ex_spl1_def ex_spl2_def spl_calloc_def spl_pfx_ok_def spl_pfx_canon_def
        ipv4_pfx_def)
  have lt: "vsp_expires ex_vsp1 <s expires ex_spl2"
    by (simp add: ex_vsp1_def ex_spl2_def spl_calloc_def word_sless_alt)
  have nlt: "\<not> vsp_expires ex_vsp1 <s expires ex_spl1"
    by (simp add: ex_vsp1_def ex_spl1_def spl_calloc_def word_sless_alt)
  have m: "spl_meta of_nat ex_spl2 (Some (3::nat)) = (2, 3, 200)"
    by (simp add: spl_meta_def ex_spl2_def spl_calloc_def)
  have m1: "vsp_meta ex_vsp1 = (1, 7, 100)"
    by (simp add: vsp_meta_def ex_vsp1_def)
  from spl_insert_vsps_supersede[of ex_state1 ex_spl2 of_nat "\<lambda>_. None" "Some 3"]
  have p1: "\<exists>st' v. spl_insert_vsps of_nat (\<lambda>_. None) ex_state1 ex_spl2 (Some (3::nat)) = Some st' \<and>
      tree st' 65000 = Some v \<and> vsp_meta v = (2, 3, 200)"
    using h1 lt m by (simp add: a2)
  from spl_insert_vsps_supersede[of "ex_state1\<lparr>stats := []\<rparr>" ex_spl1 of_nat "\<lambda>_. None" "Some 3"]
  have p1': "\<exists>st' v. spl_insert_vsps of_nat (\<lambda>_. None) (ex_state1\<lparr>stats := []\<rparr>) ex_spl1
        (Some (3::nat)) = Some st' \<and>
      tree st' 65000 = Some v \<and> vsp_meta v = (1, 7, 100)"
    using h1' nlt m1 by (simp add: a1)
  note inst = spl_insert_vsps_supersede[where st = ex_state0 and ?s1.0 = ex_spl1
      and ?s2.0 = ex_spl2 and ?rp1.0 = None and ?rp2.0 = "Some 3" and repo_id = of_nat
      and repo_byid = "\<lambda>_. None"]
  from inst[THEN conjunct2, rule_format, OF conjI[OF h2 conjI[OF h3 h4]]]
  obtain st1 st12 v12 st2 st21 v21 where
    r1: "spl_insert_vsps of_nat (\<lambda>_. None) ex_state0 ex_spl1 None = Some st1"
    and r12: "spl_insert_vsps of_nat (\<lambda>_. None) st1 ex_spl2 (Some 3) = Some st12"
    and t12: "tree st12 (asid ex_spl1) = Some v12"
    and m12: "vsp_meta v12 = spl_meta of_nat ex_spl2 (Some 3)"
    and r2: "spl_insert_vsps of_nat (\<lambda>_. None) ex_state0 ex_spl2 (Some 3) = Some st2"
    and r21: "spl_insert_vsps of_nat (\<lambda>_. None) st2 ex_spl1 None = Some st21"
    and t21: "tree st21 (asid ex_spl1) = Some v21"
    and m21: "vsp_meta v21 = spl_meta of_nat ex_spl2 (Some 3)"
    and c: "list_all (\<lambda>e. spl_pfx_ok e \<and> spl_pfx_canon e)
            (vsp_prefixes (tree ex_state0) (asid ex_spl1) @ pfxs ex_spl1 @ pfxs ex_spl2) \<longrightarrow>
          set (prefixes v12) =
            set (vsp_prefixes (tree ex_state0) (asid ex_spl1)) \<union> set (pfxs ex_spl1) \<union>
            set (pfxs ex_spl2) \<and>
          set (prefixes v21) =
            set (vsp_prefixes (tree ex_state0) (asid ex_spl1)) \<union> set (pfxs ex_spl1) \<union>
            set (pfxs ex_spl2)"
    by blast
  from c h5 have u: "set (prefixes v12) = set (pfxs ex_spl1) \<union> set (pfxs ex_spl2)"
    "set (prefixes v21) = set (pfxs ex_spl1) \<union> set (pfxs ex_spl2)"
    by (simp_all add: old)
  have p2: "\<exists>st1 st12 v12 st2 st21 v21.
      spl_insert_vsps of_nat (\<lambda>_. None) ex_state0 ex_spl1 None = Some st1 \<and>
      spl_insert_vsps of_nat (\<lambda>_. None) st1 ex_spl2 (Some 3) = Some st12 \<and>
      tree st12 65000 = Some v12 \<and> vsp_meta v12 = (2, 3, 200) \<and>
      spl_insert_vsps of_nat (\<lambda>_. None) ex_state0 ex_spl2 (Some 3) = Some st2 \<and>
      spl_insert_vsps of_nat (\<lambda>_. None) st2 ex_spl1 None = Some st21 \<and>
      tree st21 65000 = Some v21 \<and> vsp_meta v21 = (2, 3, 200) \<and>
      set (prefixes v12) = set (pfxs ex_spl1) \<union> set (pfxs ex_spl2) \<and>
      set (prefixes v21) = set (pfxs ex_spl1) \<union> set (pfxs ex_spl2)"
    using r1 r12 t12[unfolded a1] m12[unfolded m] r2 r21 t21[unfolded a1] m21[unfolded m] u
    by (intro exI[of _ st1] exI[of _ st12] exI[of _ v12] exI[of _ st2] exI[of _ st21]
        exI[of _ v21] conjI)
  show ?thesis using h1 lt p1 h1' nlt p1' h2 h3 h4 h5 p2 by (intro conjI)
qed

text \<open>
  Claim C9. After a validated SPL has been merged into a database satisfying the
  invariant, merging the same prefix content for the same AS id again (whatever the
  other fields and the repository are) leaves the record's prefix list, and so its
  count, as the first merge left it.
\<close>

theorem spl_insert_vsps_idempotent:
  assumes "vsp_tree_ok (tree st)"
    and "spl_validated s"
    and "asid s2 = asid s" and "pfxs s2 = pfxs s"
  shows "\<exists>st1 st2. spl_insert_vsps repo_id repo_byid st s rp = Some st1 \<and>
     spl_insert_vsps repo_id repo_byid st1 s2 rp2 = Some st2 \<and>
     vsp_prefixes (tree st2) (asid s) = vsp_prefixes (tree st1) (asid s) \<and>
     length (vsp_prefixes (tree st2) (asid s)) = length (vsp_prefixes (tree st1) (asid s))"
proof -
  let ?old = "vsp_prefixes (tree st) (asid s)"
  let ?m = "merge_list (pfxs s) ?old"
  from spl_insert_vsps_prefixes[of repo_id repo_byid st s rp] obtain st1 where
    r1: "spl_insert_vsps repo_id repo_byid st s rp = Some st1"
    and new1: "vsp_prefixes (tree st1) (asid s) = ?m"
    by blast
  from spl_insert_vsps_prefixes[of repo_id repo_byid st1 s2 rp2] obtain st2 where
    r2: "spl_insert_vsps repo_id repo_byid st1 s2 rp2 = Some st2"
    and new2: "vsp_prefixes (tree st2) (asid s) = merge_list (pfxs s) ?m"
    using assms(3,4) new1 by auto
  have old_ok: "(\<forall>e\<in>set ?old. spl_pfx_ok e) \<and> pfxs_sorted ?old"
    using assms(1) by (auto simp: vsp_tree_ok_def vsp_ok_def vsp_prefixes_def pfxs_sorted_def
        split: option.splits)
  have new_ok: "\<forall>e\<in>set (pfxs s). spl_pfx_ok e" and new_sorted: "pfxs_sorted (pfxs s)"
    using assms(2) by (auto simp: spl_validated_def list_all_iff)
  have all_ok: "\<forall>e\<in>set (pfxs s) \<union> set ?old. spl_pfx_ok e"
    using new_ok old_ok by auto
  have srt: "pfxs_sorted ?m"
    using merge_list_sorted[OF all_ok new_sorted] old_ok by simp
  have oks: "\<forall>e\<in>set (pfxs s) \<union> set ?m. spl_pfx_ok e"
    using set_merge_list_sub[of "pfxs s" ?old] all_ok by blast
  have cov: "\<forall>x\<in>set (pfxs s). \<exists>y\<in>set ?m. spl_pfx_cmp x y = 0"
    using merge_list_incoming[of _ "pfxs s" ?old] by blast
  have "merge_list (pfxs s) ?m = ?m"
    by (rule merge_list_absorb[OF oks new_sorted srt cov])
  with r1 r2 new1 new2 show ?thesis by simp
qed

theorem spl_insert_vsps_idempotent_witness:
  "vsp_tree_ok (tree ex_state1) \<and> spl_validated ex_spl2 \<and>
   asid ex_spl2 = asid ex_spl2 \<and> pfxs ex_spl2 = pfxs ex_spl2 \<and>
   (\<exists>st1 st2. spl_insert_vsps of_nat (\<lambda>_. None) ex_state1 ex_spl2 None = Some st1 \<and>
     spl_insert_vsps of_nat (\<lambda>_. None) st1 ex_spl2 (Some (3::nat)) = Some st2 \<and>
     vsp_prefixes (tree st2) (asid ex_spl2) = vsp_prefixes (tree st1) (asid ex_spl2) \<and>
     length (vsp_prefixes (tree st2) (asid ex_spl2)) =
       length (vsp_prefixes (tree st1) (asid ex_spl2)))"
proof -
  have h1: "vsp_tree_ok (tree ex_state1)"
    by (simp add: vsp_tree_ok_def ex_state1_def vsp_ok_def ex_vsp1_def pfxs_sorted_def
        spl_pfx_ok_def ipv4_pfx_def spl_pfx_cmp_def prefix_cmp_def memcmp_unfold)
  have h2: "spl_validated ex_spl2"
    by (simp add: spl_validated_def ex_spl2_def spl_calloc_def spl_pfx_ok_def ipv4_pfx_def
        pfxs_sorted_def)
  from spl_insert_vsps_idempotent[OF h1 h2 refl refl, of of_nat "\<lambda>_. None" None "Some 3"]
  show ?thesis using h1 h2 by simp
qed

section \<open>Properties of the validator and the object builder\<close>

lemma spl_parse_prefixes_Inr:
  assumes "spl_parse_prefixes env af j prev bits s = Inr s'"
  shows "\<exists>ips. map (\<lambda>b. ip_addr_parse env b af) bits = map Some ips \<and>
     s' = s\<lparr>pfxs := pfxs s @ map (mk_pfx af) ips\<rparr> \<and>
     successively (\<lambda>p q. prefix_cmp af p q = - 1)
       (case prev of None \<Rightarrow> ips | Some p \<Rightarrow> if j > 0 then p # ips else ips)"
  using assms
proof (induction bits arbitrary: j prev s)
  case Nil
  then show ?case by (auto split: option.splits)
next
  case (Cons b bits)
  from Cons.prems obtain ip where ip: "ip_addr_parse env b af = Some ip"
    by (auto split: option.splits)
  from Cons.prems ip have ok: "\<not> (j > 0 \<and> (case prev of None \<Rightarrow> False
                       | Some p \<Rightarrow> prefix_cmp af p ip \<noteq> - 1))"
    by (auto split: if_splits)
  from Cons.prems ip ok have rec: "spl_parse_prefixes env af (j + 1) (Some ip) bits
                 (s\<lparr>pfxs := pfxs s @ [\<lparr>prefix = ip, afi = af\<rparr>]\<rparr>) = Inr s'"
    by (auto split: if_splits)
  from Cons.IH[OF rec] obtain ips where
    m: "map (\<lambda>b. ip_addr_parse env b af) bits = map Some ips"
    and s': "s' = s\<lparr>pfxs := pfxs s @ [\<lparr>prefix = ip, afi = af\<rparr>]\<rparr>
               \<lparr>pfxs := pfxs (s\<lparr>pfxs := pfxs s @ [\<lparr>prefix = ip, afi = af\<rparr>]\<rparr>) @ map (mk_pfx af) ips\<rparr>"
    and su: "successively (\<lambda>p q. prefix_cmp af p q = - 1) (ip # ips)"
    by auto
  show ?case
  proof (intro exI[of _ "ip # ips"] conjI)
    show "map (\<lambda>b. ip_addr_parse env b af) (b # bits) = map Some (ip # ips)"
      using ip m by simp
    show "s' = s\<lparr>pfxs := pfxs s @ map (mk_pfx af) (ip # ips)\<rparr>"
      using s' by (simp add: mk_pfx_def)
    show "successively (\<lambda>p q. prefix_cmp af p q = - 1)
       (case prev of None \<Rightarrow> ip # ips | Some p \<Rightarrow> if j > 0 then p # ip # ips else ip # ips)"
      using su ok by (auto split: option.splits)
  qed
qed

lemma spl_pfx_cmp_mk_pfx: "spl_pfx_cmp (mk_pfx af p) (mk_pfx af q) = prefix_cmp af p q"
  by (simp add: spl_pfx_cmp_def mk_pfx_def)

lemma spl_pfx_cmp_afi_lt: "afi_val (afi a) < afi_val (afi b) \<Longrightarrow> spl_pfx_cmp a b = - 1"
  by (simp add: spl_pfx_cmp_def)

lemma spl_parse_blocks_Inr:
  assumes "spl_parse_blocks env blocks (v4, v6) s = Inr s'"
  shows "\<exists>afs es. length afs = length blocks \<and>
     list_all2 (block_accepted env) blocks afs \<and>
     sorted_wrt (\<lambda>a b. afi_val a < afi_val b) afs \<and>
     (v4 > 0 \<or> v6 > 0 \<longrightarrow> (\<forall>a\<in>set afs. a = AFI_IPV6)) \<and>
     (v6 > 0 \<longrightarrow> blocks = []) \<and>
     s' = s\<lparr>pfxs := pfxs s @ es\<rparr> \<and>
     length es = sum_list (map (\<lambda>b. length (addressPrefixes b)) blocks) \<and>
     successively (\<lambda>a b. spl_pfx_cmp a b = - 1) es \<and>
     (\<exists>n. n \<le> length es \<and> (\<forall>e\<in>set (take n es). afi e = AFI_IPV4) \<and> (\<forall>e\<in>set (drop n es). afi e = AFI_IPV6)) \<and>
     (v4 > 0 \<or> v6 > 0 \<longrightarrow> (\<forall>e\<in>set es. afi e = AFI_IPV6)) \<and>
     (blocks \<noteq> [] \<longrightarrow> length (pfxs s') < MAX_IP_SIZE env) \<and>
     (\<forall>k<length blocks. length (pfxs s) + sum_list (map (\<lambda>b. length (addressPrefixes b)) (take (Suc k) blocks)) < MAX_IP_SIZE env)"
  using assms
proof (induction blocks arbitrary: v4 v6 s)
  case Nil
  then show ?case by (auto intro!: exI[of _ "[]"])
next
  case (Cons afp rest)
  let ?bits = "addressPrefixes afp"
  from Cons.prems have ne: "?bits \<noteq> []" and mx: "pfxsz s + length ?bits < MAX_IP_SIZE env"
    by (auto simp: Let_def split: if_splits)
  from Cons.prems ne mx obtain af where af: "ip_addr_afi_parse env (addressFamily afp) = Some af"
    by (auto simp: Let_def split: if_splits option.splits)
  from Cons.prems ne mx af obtain w4 w6 where seen: "spl_afi_seen af (v4, v6) = Inr (w4, w6)"
    by (auto simp: Let_def split: if_splits sum.splits)
  from Cons.prems ne mx af seen obtain s1 where
    inner: "spl_parse_prefixes env af 0 None ?bits s = Inr s1"
    and rec: "spl_parse_blocks env rest (w4, w6) s1 = Inr s'"
    by (auto simp: Let_def split: if_splits sum.splits)
  from spl_parse_prefixes_Inr[OF inner] obtain ips where
    m: "map (\<lambda>b. ip_addr_parse env b af) ?bits = map Some ips"
    and s1: "s1 = s\<lparr>pfxs := pfxs s @ map (mk_pfx af) ips\<rparr>"
    and su: "successively (\<lambda>p q. prefix_cmp af p q = - 1) ips"
    by auto
  from m have len: "length ips = length ?bits" by (metis length_map)
  have acc: "block_accepted env afp af"
    using ne af m su by (auto simp: block_accepted_def)
  from Cons.IH[OF rec] obtain afs es where
    l: "length afs = length rest"
    and a: "list_all2 (block_accepted env) rest afs"
    and so: "sorted_wrt (\<lambda>a b. afi_val a < afi_val b) afs"
    and a6: "w4 > 0 \<or> w6 > 0 \<longrightarrow> (\<forall>a\<in>set afs. a = AFI_IPV6)"
    and r6: "w6 > 0 \<longrightarrow> rest = []"
    and s': "s' = s1\<lparr>pfxs := pfxs s1 @ es\<rparr>"
    and le: "length es = sum_list (map (\<lambda>b. length (addressPrefixes b)) rest)"
    and sue: "successively (\<lambda>a b. spl_pfx_cmp a b = - 1) es"
    and e6: "w4 > 0 \<or> w6 > 0 \<longrightarrow> (\<forall>e\<in>set es. afi e = AFI_IPV6)"
    and mxr: "rest \<noteq> [] \<longrightarrow> length (pfxs s') < MAX_IP_SIZE env"
    and run: "\<forall>k<length rest. length (pfxs s1) + sum_list (map (\<lambda>b. length (addressPrefixes b)) (take (Suc k) rest)) < MAX_IP_SIZE env"
    by blast
  have w: "w4 > 0 \<or> w6 > 0" using seen by (cases af) (auto split: if_splits)
  have v: "v4 > 0 \<or> v6 > 0 \<longrightarrow> af = AFI_IPV6" "v6 = 0"
    using seen by (cases af; auto split: if_splits)+
  have w6: "af = AFI_IPV6 \<longrightarrow> w6 > 0" using seen by (cases af) (auto split: if_splits)
  have afs6: "\<forall>a\<in>set afs. a = AFI_IPV6" and es6: "\<forall>e\<in>set es. afi e = AFI_IPV6"
    using a6 e6 w by auto
  have rest6: "af = AFI_IPV6 \<longrightarrow> rest = [] \<and> afs = [] \<and> es = []"
    using w6 r6 l le by auto
  let ?es = "map (mk_pfx af) ips @ es"
  have suc1: "successively (\<lambda>a b. spl_pfx_cmp a b = - 1) (map (mk_pfx af) ips)"
    using su by (simp add: successively_map spl_pfx_cmp_mk_pfx)
  have bound: "ips \<noteq> [] \<and> es \<noteq> [] \<longrightarrow>
      spl_pfx_cmp (last (map (mk_pfx af) ips)) (hd es) = - 1"
  proof (intro impI)
    assume h: "ips \<noteq> [] \<and> es \<noteq> []"
    then have "af = AFI_IPV4" using rest6 by (cases af) auto
    moreover have "afi (hd es) = AFI_IPV6" using es6 h by simp
    moreover have "afi (last (map (mk_pfx af) ips)) = af"
      using h by (simp add: last_map mk_pfx_def)
    ultimately show "spl_pfx_cmp (last (map (mk_pfx af) ips)) (hd es) = - 1"
      by (intro spl_pfx_cmp_afi_lt) simp
  qed
  have grp: "\<exists>n. n \<le> length ?es \<and> (\<forall>e\<in>set (take n ?es). afi e = AFI_IPV4) \<and>
      (\<forall>e\<in>set (drop n ?es). afi e = AFI_IPV6)"
  proof (cases af)
    case AFI_IPV4
    then show ?thesis using es6
      by (intro exI[of _ "length ips"]) (auto simp: mk_pfx_def)
  next
    case AFI_IPV6
    then show ?thesis using es6
      by (intro exI[of _ 0]) (auto simp: mk_pfx_def)
  qed
  show ?case
  proof (intro exI[of _ "af # afs"] exI[of _ ?es] conjI)
    show "length (af # afs) = length (afp # rest)" using l by simp
    show "list_all2 (block_accepted env) (afp # rest) (af # afs)" using acc a by simp
    show "sorted_wrt (\<lambda>a b. afi_val a < afi_val b) (af # afs)"
      using so afs6 rest6 by (cases af) auto
    show "v4 > 0 \<or> v6 > 0 \<longrightarrow> (\<forall>a\<in>set (af # afs). a = AFI_IPV6)"
      using v afs6 by auto
    show "v6 > 0 \<longrightarrow> afp # rest = []" using v by simp
    show "s' = s\<lparr>pfxs := pfxs s @ ?es\<rparr>" using s' s1 by simp
    show "length ?es = sum_list (map (\<lambda>b. length (addressPrefixes b)) (afp # rest))"
      using le len by simp
    show "successively (\<lambda>a b. spl_pfx_cmp a b = - 1) ?es"
      using suc1 sue bound by (auto simp: successively_append_iff)
    show "\<exists>n. n \<le> length ?es \<and> (\<forall>e\<in>set (take n ?es). afi e = AFI_IPV4) \<and>
      (\<forall>e\<in>set (drop n ?es). afi e = AFI_IPV6)" by (rule grp)
    show "v4 > 0 \<or> v6 > 0 \<longrightarrow> (\<forall>e\<in>set ?es. afi e = AFI_IPV6)"
      using v es6 by (auto simp: mk_pfx_def)
    show "afp # rest \<noteq> [] \<longrightarrow> length (pfxs s') < MAX_IP_SIZE env"
    proof (cases "rest = []")
      case True
      with le have "es = []" by simp
      with s' s1 mx len show ?thesis by (simp add: pfxsz_def)
    next
      case False
      with mxr show ?thesis by simp
    qed
    show "\<forall>k<length (afp # rest). length (pfxs s) +
        sum_list (map (\<lambda>b. length (addressPrefixes b)) (take (Suc k) (afp # rest))) < MAX_IP_SIZE env"
    proof (intro allI impI)
      fix k assume k: "k < length (afp # rest)"
      show "length (pfxs s) +
        sum_list (map (\<lambda>b. length (addressPrefixes b)) (take (Suc k) (afp # rest))) < MAX_IP_SIZE env"
      proof (cases k)
        case 0
        then show ?thesis using mx by (simp add: pfxsz_def)
      next
        case (Suc k')
        with k have "k' < length rest" by simp
        with run have "length (pfxs s1) + sum_list (map (\<lambda>b. length (addressPrefixes b)) (take (Suc k') rest)) < MAX_IP_SIZE env"
          by blast
        then show ?thesis using Suc s1 len by (simp add: add.assoc)
      qed
    qed
  qed
qed

lemma spl_parse_econtent_Inr:
  assumes "spl_parse_econtent env s d = Inr s'"
  shows "\<exists>t a. d2i_SignedPrefixList env d = Some (t, length d) \<and>
     valid_econtent_version env (version t) \<and>
     as_id_parse env (asn1_asid t) = Some a \<and>
     length (prefixBlocks t) \<le> 2 \<and>
     spl_parse_blocks env (prefixBlocks t) (0, 0) (s\<lparr>asid := a\<rparr>) = Inr s'"
  using assms
  by (auto simp: spl_parse_econtent_def Let_def split: option.splits if_splits prod.splits)

lemma successively_spl_pfx_cmp_sorted:
  assumes "successively (\<lambda>a b. spl_pfx_cmp a b = - 1) xs" "list_all spl_pfx_ok xs"
  shows "pfxs_sorted xs"
proof -
  have "successively (\<lambda>a b. spl_pfx_cmp a b = - 1) xs \<longleftrightarrow>
        sorted_wrt (\<lambda>a b. spl_pfx_cmp a b = - 1) xs"
  proof (rule successively_iff_sorted_wrt_strong)
    fix x y z
    assume "x \<in> set xs" "y \<in> set xs" "z \<in> set xs"
      and "spl_pfx_cmp x y = - 1" "spl_pfx_cmp y z = - 1"
    with assms(2) show "spl_pfx_cmp x z = - 1"
      by (auto simp: list_all_iff spl_pfx_cmp_lt)
  qed
  with assms(1) show ?thesis by (simp add: pfxs_sorted_def)
qed

text \<open>
  Claim C5. When \<open>spl_parse_econtent\<close> succeeds, the entries it has appended to the
  record's prefix list are strictly increasing from each entry to the next per
  \<open>spl_pfx_cmp\<close>; they consist of IPv4 entries followed by IPv6 entries; neighbouring
  entries of the same family are strictly increasing per \<open>prefix_cmp\<close>; and when the
  entries are well-formed (16 address bytes) the whole list is strictly increasing, every
  entry against every later one.
\<close>

theorem spl_parse_econtent_sorted:
  assumes "spl_parse_econtent env s d = Inr s'"
  shows "\<exists>es. pfxs s' = pfxs s @ es \<and>
     successively (\<lambda>a b. spl_pfx_cmp a b = - 1) es \<and>
     (\<exists>n. n \<le> length es \<and> list_all (\<lambda>e. afi e = AFI_IPV4) (take n es) \<and>
        list_all (\<lambda>e. afi e = AFI_IPV6) (drop n es)) \<and>
     (\<forall>k. Suc k < length es \<and> afi (es ! k) = afi (es ! Suc k) \<longrightarrow>
        prefix_cmp (afi (es ! k)) (prefix (es ! k)) (prefix (es ! Suc k)) = - 1) \<and>
     (list_all spl_pfx_ok es \<longrightarrow> pfxs_sorted es)"
proof -
  from spl_parse_econtent_Inr[OF assms] obtain t a where
    d: "d2i_SignedPrefixList env d = Some (t, length d)"
    and b: "spl_parse_blocks env (prefixBlocks t) (0, 0) (s\<lparr>asid := a\<rparr>) = Inr s'" by blast
  from spl_parse_blocks_Inr[OF b] obtain es where
    s': "s' = s\<lparr>asid := a, pfxs := pfxs (s\<lparr>asid := a\<rparr>) @ es\<rparr>"
    and su: "successively (\<lambda>a b. spl_pfx_cmp a b = - 1) es"
    and g: "\<exists>n. n \<le> length es \<and> (\<forall>e\<in>set (take n es). afi e = AFI_IPV4) \<and>
              (\<forall>e\<in>set (drop n es). afi e = AFI_IPV6)"
    by auto
  have adj: "\<forall>k. Suc k < length es \<and> afi (es ! k) = afi (es ! Suc k) \<longrightarrow>
        prefix_cmp (afi (es ! k)) (prefix (es ! k)) (prefix (es ! Suc k)) = - 1"
  proof (intro allI impI)
    fix k assume k: "Suc k < length es \<and> afi (es ! k) = afi (es ! Suc k)"
    with successively_nth[OF su, of k] have "spl_pfx_cmp (es ! k) (es ! Suc k) = - 1" by simp
    with k show "prefix_cmp (afi (es ! k)) (prefix (es ! k)) (prefix (es ! Suc k)) = - 1"
      by (simp add: spl_pfx_cmp_def)
  qed
  show ?thesis
  proof (intro exI[of _ es] conjI)
    show "pfxs s' = pfxs s @ es" using s' by simp
    show "successively (\<lambda>a b. spl_pfx_cmp a b = - 1) es" by (rule su)
    show "\<exists>n. n \<le> length es \<and> list_all (\<lambda>e. afi e = AFI_IPV4) (take n es) \<and>
        list_all (\<lambda>e. afi e = AFI_IPV6) (drop n es)"
      using g by (simp add: list_all_iff)
    show "\<forall>k. Suc k < length es \<and> afi (es ! k) = afi (es ! Suc k) \<longrightarrow>
        prefix_cmp (afi (es ! k)) (prefix (es ! k)) (prefix (es ! Suc k)) = - 1" by (rule adj)
    show "list_all spl_pfx_ok es \<longrightarrow> pfxs_sorted es"
      using successively_spl_pfx_cmp_sorted[OF su] by simp
  qed
qed

lemma spl_parse_econtent_total:
  assumes "spl_parse_econtent env s d = Inr s'"
  shows "\<exists>t. d2i_SignedPrefixList env d = Some (t, length d) \<and>
     pfxsz s' = pfxsz s + sum_list (block_sizes t) \<and>
     (\<forall>k<length (block_sizes t). pfxsz s + sum_list (take (Suc k) (block_sizes t)) < MAX_IP_SIZE env) \<and>
     (prefixBlocks t \<noteq> [] \<longrightarrow> pfxsz s' < MAX_IP_SIZE env)"
proof -
  from spl_parse_econtent_Inr[OF assms] obtain t a where
    d: "d2i_SignedPrefixList env d = Some (t, length d)"
    and b: "spl_parse_blocks env (prefixBlocks t) (0, 0) (s\<lparr>asid := a\<rparr>) = Inr s'" by blast
  from spl_parse_blocks_Inr[OF b] obtain es where
    s': "s' = s\<lparr>asid := a, pfxs := pfxs (s\<lparr>asid := a\<rparr>) @ es\<rparr>"
    and le: "length es = sum_list (map (\<lambda>b. length (addressPrefixes b)) (prefixBlocks t))"
    and mx: "prefixBlocks t \<noteq> [] \<longrightarrow> length (pfxs s') < MAX_IP_SIZE env"
    and run: "\<forall>k<length (prefixBlocks t). length (pfxs (s\<lparr>asid := a\<rparr>)) +
        sum_list (map (\<lambda>b. length (addressPrefixes b)) (take (Suc k) (prefixBlocks t))) < MAX_IP_SIZE env"
    by auto
  show ?thesis
    using d s' le mx run
    by (intro exI[of _ t]) (auto simp: pfxsz_def block_sizes_def take_map)
qed

text \<open>
  Claim C7. When \<open>spl_parse_econtent\<close> succeeds, the prefix count has grown by the sizes
  of all blocks and is strictly below \<open>MAX_IP_SIZE\<close> (given at least one block, or a
  count below the ceiling at entry). Whenever the count at entry plus the sizes of the
  blocks up to and including some block reaches or exceeds the ceiling, validation
  fails. An object returned by \<open>spl_parse\<close> has fewer than \<open>MAX_IP_SIZE\<close> prefixes, the
  ceiling being positive.
\<close>

theorem spl_parse_econtent_ceiling:
  "(spl_parse_econtent env s d = Inr s' \<longrightarrow>
      (\<exists>t. d2i_SignedPrefixList env d = Some (t, length d) \<and>
         pfxsz s' = pfxsz s + sum_list (block_sizes t) \<and>
         (prefixBlocks t \<noteq> [] \<or> pfxsz s < MAX_IP_SIZE env \<longrightarrow> pfxsz s' < MAX_IP_SIZE env))) \<and>
   (\<forall>t n k. d2i_SignedPrefixList env d = Some (t, n) \<and> k < length (block_sizes t) \<and>
      MAX_IP_SIZE env \<le> pfxsz s + sum_list (take (Suc k) (block_sizes t)) \<longrightarrow>
      isl (spl_parse_econtent env s d)) \<and>
   (spl_parse env tal der = Some r \<and> 0 < MAX_IP_SIZE env \<longrightarrow> pfxsz r < MAX_IP_SIZE env)"
proof (intro conjI impI allI)
  assume a: "spl_parse_econtent env s d = Inr s'"
  from spl_parse_econtent_total[OF a] obtain t where
    t: "d2i_SignedPrefixList env d = Some (t, length d)"
    "pfxsz s' = pfxsz s + sum_list (block_sizes t)"
    "prefixBlocks t \<noteq> [] \<longrightarrow> pfxsz s' < MAX_IP_SIZE env" by blast
  have "pfxsz s' < MAX_IP_SIZE env" if "prefixBlocks t \<noteq> [] \<or> pfxsz s < MAX_IP_SIZE env"
  proof (cases "prefixBlocks t = []")
    case True
    then have "pfxsz s' = pfxsz s" using t(2) by (simp add: block_sizes_def)
    with that True show ?thesis by simp
  next
    case False
    with t(3) show ?thesis by simp
  qed
  with t(1,2) show "\<exists>t. d2i_SignedPrefixList env d = Some (t, length d) \<and>
         pfxsz s' = pfxsz s + sum_list (block_sizes t) \<and>
         (prefixBlocks t \<noteq> [] \<or> pfxsz s < MAX_IP_SIZE env \<longrightarrow> pfxsz s' < MAX_IP_SIZE env)"
    by blast
next
  fix t n k
  assume h: "d2i_SignedPrefixList env d = Some (t, n) \<and> k < length (block_sizes t) \<and>
      MAX_IP_SIZE env \<le> pfxsz s + sum_list (take (Suc k) (block_sizes t))"
  show "isl (spl_parse_econtent env s d)"
  proof (cases "spl_parse_econtent env s d")
    case (Inl e)
    then show ?thesis by simp
  next
    case (Inr s')
    from spl_parse_econtent_total[OF Inr] h have False by fastforce
    then show ?thesis ..
  qed
next
  assume h: "spl_parse env tal der = Some r \<and> 0 < MAX_IP_SIZE env"
  then obtain s0 cms s cert where e: "spl_parse_econtent env s0 cms = Inr s" and s0: "pfxs s0 = []"
    and r: "r = s\<lparr>valid := valid_spl env cert s\<rparr>"
    by (auto simp: spl_parse_def spl_calloc_def split: option.splits if_splits sum.splits)
  from spl_parse_econtent_total[OF e] obtain t where
    d: "d2i_SignedPrefixList env cms = Some (t, length cms)" and
    t: "pfxsz s = pfxsz s0 + sum_list (block_sizes t)"
    "prefixBlocks t \<noteq> [] \<longrightarrow> pfxsz s < MAX_IP_SIZE env" by blast
  have "pfxsz s < MAX_IP_SIZE env"
  proof (cases "prefixBlocks t = []")
    case True
    then have "pfxsz s = 0" using t(1) s0 by (simp add: block_sizes_def pfxsz_def)
    with h show ?thesis by simp
  next
    case False
    with t(2) show ?thesis by simp
  qed
  with r show "pfxsz r < MAX_IP_SIZE env" by (simp add: pfxsz_def)
qed

lemma spl_parse_econtent_accepts:
  assumes "spl_parse_econtent env s d = Inr s'"
    and "d2i_SignedPrefixList env d = Some (t, n)"
  shows "\<not> three_blocks t \<and> \<not> ipv6_before_ipv4 env t \<and> \<not> has_empty_block t \<and>
         \<not> has_unsorted_block env t \<and> \<not> duplicate_family env t"
proof -
  let ?bs = "prefixBlocks t"
  from spl_parse_econtent_Inr[OF assms(1)] assms(2) obtain a where
    len: "length ?bs \<le> 2"
    and b: "spl_parse_blocks env ?bs (0, 0) (s\<lparr>asid := a\<rparr>) = Inr s'" by auto
  from spl_parse_blocks_Inr[OF b] obtain afs where
    l: "length afs = length ?bs"
    and acc: "list_all2 (block_accepted env) ?bs afs"
    and so: "sorted_wrt (\<lambda>a b. afi_val a < afi_val b) afs"
    by blast
  have acc_nth: "block_accepted env (?bs ! i) (afs ! i)" if "i < length ?bs" for i
    using acc that by (simp add: list_all2_conv_all_nth)
  have lt: "afi_val (afs ! i) < afi_val (afs ! j)" if "i < j" "j < length ?bs" for i j
    using so that l by (simp add: sorted_wrt_iff_nth_less)
  have 1: "\<not> three_blocks t" using len by (simp add: three_blocks_def)
  have 2: "\<not> ipv6_before_ipv4 env t"
  proof
    assume "ipv6_before_ipv4 env t"
    then obtain i j where ij: "i < j" "j < length ?bs"
      and p: "ip_addr_afi_parse env (addressFamily (?bs ! i)) = Some AFI_IPV6"
             "ip_addr_afi_parse env (addressFamily (?bs ! j)) = Some AFI_IPV4"
      by (auto simp: ipv6_before_ipv4_def)
    with acc_nth[of i] acc_nth[of j] have "afs ! i = AFI_IPV6" "afs ! j = AFI_IPV4"
      by (auto simp: block_accepted_def)
    with lt[OF ij] show False by simp
  qed
  have 3: "\<not> has_empty_block t"
  proof
    assume "has_empty_block t"
    then obtain i where "i < length ?bs" "addressPrefixes (?bs ! i) = []"
      by (auto simp: has_empty_block_def list_ex_iff in_set_conv_nth)
    with acc_nth[of i] show False by (simp add: block_accepted_def)
  qed
  have 4: "\<not> has_unsorted_block env t"
  proof
    assume "has_unsorted_block env t"
    then obtain i where i: "i < length ?bs" and u: "block_unsorted env (?bs ! i)"
      by (auto simp: has_unsorted_block_def list_ex_iff in_set_conv_nth)
    let ?b = "?bs ! i"
    from acc_nth[OF i] obtain ips where
      af: "ip_addr_afi_parse env (addressFamily ?b) = Some (afs ! i)"
      and m: "map (\<lambda>x. ip_addr_parse env x (afs ! i)) (addressPrefixes ?b) = map Some ips"
      and su: "successively (\<lambda>p q. prefix_cmp (afs ! i) p q = - 1) ips"
      by (auto simp: block_accepted_def)
    from m have li: "length ips = length (addressPrefixes ?b)" by (metis length_map)
    from u af obtain k where k': "k < length (addressPrefixes ?b) - 1"
      and cs: "case (ip_addr_parse env (addressPrefixes ?b ! k) (afs ! i),
                   ip_addr_parse env (addressPrefixes ?b ! Suc k) (afs ! i)) of
               (Some p, Some q) \<Rightarrow> prefix_cmp (afs ! i) p q \<noteq> - 1
             | _ \<Rightarrow> False"
      by (auto simp: block_unsorted_def)
    from k' have k: "Suc k < length (addressPrefixes ?b)" by simp
    from cs obtain p q where
      p: "ip_addr_parse env (addressPrefixes ?b ! k) (afs ! i) = Some p"
      and q: "ip_addr_parse env (addressPrefixes ?b ! Suc k) (afs ! i) = Some q"
      and c: "prefix_cmp (afs ! i) p q \<noteq> - 1"
      by (cases "ip_addr_parse env (addressPrefixes ?b ! k) (afs ! i)";
          cases "ip_addr_parse env (addressPrefixes ?b ! Suc k) (afs ! i)") auto
    have nth: "ip_addr_parse env (addressPrefixes ?b ! n) (afs ! i) = Some (ips ! n)"
      if "n < length (addressPrefixes ?b)" for n
      using arg_cong[OF m, of "\<lambda>l. l ! n"] that li by simp
    from nth[of k] nth[of "Suc k"] k p q have "ips ! k = p" "ips ! Suc k = q" by auto
    with successively_nth[OF su, of k] k li c show False by simp
  qed
  have 5: "\<not> duplicate_family env t"
  proof
    assume "duplicate_family env t"
    then obtain i j where ij: "i < j" "j < length ?bs"
      and p: "ip_addr_afi_parse env (addressFamily (?bs ! i)) =
              ip_addr_afi_parse env (addressFamily (?bs ! j))"
      by (auto simp: duplicate_family_def)
    with acc_nth[of i] acc_nth[of j] have "afs ! i = afs ! j"
      by (auto simp: block_accepted_def)
    with lt[OF ij] show False by simp
  qed
  from 1 2 3 4 5 show ?thesis by blast
qed

lemma spl_parse_Some:
  "spl_parse env tal der = Some r \<longleftrightarrow>
     (\<exists>x509 cms tm a k si sk nb na s cert.
        cms_parse_validate env der = Some (x509, cms, tm) \<and>
        x509_get_aia env x509 = Some (Some a) \<and>
        x509_get_aki env x509 = Some (Some k) \<and>
        x509_get_sia env x509 = Some (Some si) \<and>
        x509_get_ski env x509 = Some (Some sk) \<and>
        x509_get_notbefore env x509 = Some nb \<and>
        x509_get_notafter env x509 = Some na \<and>
        spl_parse_econtent env
          (spl_calloc\<lparr>signtime := tm, aia := Some a, aki := Some k, sia := Some si,
             ski := Some sk, notbefore := nb, notafter := na\<rparr>) cms = Inr s \<and>
        \<not> x509_any_inherits env x509 \<and>
        cert_parse_ee_cert env tal x509 = Some cert \<and>
        cert_asz env cert \<noteq> 0 \<and> cert_ipsz env cert = 0 \<and>
        r = s\<lparr>valid := valid_spl env cert s\<rparr>)"
  (is "?L \<longleftrightarrow> ?R")
proof
  assume ?L
  then show ?R
    by (simp add: spl_parse_def split: option.splits if_splits sum.splits prod.splits)
next
  assume ?R
  then show ?L
    by (auto simp: spl_parse_def)
qed

lemma spl_parse_prefixes_valid_spl:
  "spl_parse_prefixes (env\<lparr>valid_spl := vs\<rparr>) af j prev bits s =
   spl_parse_prefixes env af j prev bits s"
  by (induction bits arbitrary: j prev s) (auto split: option.splits)

lemma spl_parse_blocks_valid_spl:
  "spl_parse_blocks (env\<lparr>valid_spl := vs\<rparr>) blocks seen s = spl_parse_blocks env blocks seen s"
  by (induction blocks arbitrary: seen s)
     (auto simp: Let_def spl_parse_prefixes_valid_spl split: option.splits sum.splits)

lemma spl_parse_econtent_valid_spl:
  "spl_parse_econtent (env\<lparr>valid_spl := vs\<rparr>) s d = spl_parse_econtent env s d"
  by (simp add: spl_parse_econtent_def spl_parse_blocks_valid_spl Let_def
      split: option.splits prod.splits)

text \<open>
  Claim C6. \<open>spl_parse\<close> returns no object, and \<open>spl_parse_econtent\<close> fails whatever record
  it is given, when the decoded eContent has three blocks, an IPv6 block before an IPv4
  block, an empty block, a block with two neighbouring entries of which the second does
  not strictly exceed the first, or two blocks with the same family; and \<open>spl_parse\<close>
  returns no object when the end-entity certificate has IP resources or no AS resources.
\<close>

theorem spl_parse_rejects:
  assumes "cms_parse_validate env der = Some (x509, cms, tm)"
  shows "(\<forall>t n. d2i_SignedPrefixList env cms = Some (t, n) \<and>
            (three_blocks t \<or> ipv6_before_ipv4 env t \<or> has_empty_block t \<or>
             has_unsorted_block env t \<or> duplicate_family env t) \<longrightarrow>
            (\<forall>s. isl (spl_parse_econtent env s cms)) \<and> spl_parse env tal der = None) \<and>
         (\<forall>cert. cert_parse_ee_cert env tal x509 = Some cert \<and>
            (cert_ipsz env cert > 0 \<or> cert_asz env cert = 0) \<longrightarrow>
            spl_parse env tal der = None)"
proof (intro conjI allI impI)
  fix t n s
  assume h: "d2i_SignedPrefixList env cms = Some (t, n) \<and>
            (three_blocks t \<or> ipv6_before_ipv4 env t \<or> has_empty_block t \<or>
             has_unsorted_block env t \<or> duplicate_family env t)"
  show "isl (spl_parse_econtent env s cms)"
  proof (cases "spl_parse_econtent env s cms")
    case (Inl e)
    then show ?thesis by simp
  next
    case (Inr s')
    from spl_parse_econtent_accepts[OF Inr] h have False by blast
    then show ?thesis ..
  qed
next
  fix t n
  assume h: "d2i_SignedPrefixList env cms = Some (t, n) \<and>
            (three_blocks t \<or> ipv6_before_ipv4 env t \<or> has_empty_block t \<or>
             has_unsorted_block env t \<or> duplicate_family env t)"
  show "spl_parse env tal der = None"
  proof (cases "spl_parse env tal der")
    case None
    then show ?thesis .
  next
    case (Some r)
    then obtain s0 s where "spl_parse_econtent env s0 cms = Inr s"
      using assms unfolding spl_parse_Some by auto
    from spl_parse_econtent_accepts[OF this] h have False by blast
    then show ?thesis ..
  qed
next
  fix cert
  assume h: "cert_parse_ee_cert env tal x509 = Some cert \<and>
            (cert_ipsz env cert > 0 \<or> cert_asz env cert = 0)"
  show "spl_parse env tal der = None"
  proof (cases "spl_parse env tal der")
    case None
    then show ?thesis .
  next
    case (Some r)
    then have False using assms h unfolding spl_parse_Some by auto
    then show ?thesis ..
  qed
qed

lemma spl_parse_Some_steps:
  "spl_parse env tal der = Some r \<longleftrightarrow>
     (\<exists>s cert. spl_structural_steps env tal der s cert \<and>
        r = s\<lparr>valid := valid_spl env cert s\<rparr>)"
  unfolding spl_parse_Some spl_structural_steps_def by blast

lemma spl_parse_None_steps:
  "spl_parse env tal der = None \<longleftrightarrow>
      \<not> (\<exists>s cert. spl_structural_steps env tal der s cert)"
proof -
  have "spl_parse env tal der = None \<longleftrightarrow> \<not> (\<exists>r. spl_parse env tal der = Some r)"
    by (cases "spl_parse env tal der") auto
  then show ?thesis unfolding spl_parse_Some_steps by blast
qed

lemma spl_structural_steps_valid_spl:
  "spl_structural_steps (env\<lparr>valid_spl := vs\<rparr>) tal der s cert =
   spl_structural_steps env tal der s cert"
  by (simp add: spl_structural_steps_def spl_parse_econtent_valid_spl)

text \<open>
  Claim C8. \<open>spl_parse\<close> returns a record exactly when the structural steps pass (CMS
  verification, the four mandatory extensions extracted and present, the validity
  window extracted, eContent validation, no inherited resources, the end-entity
  certificate parsed with AS resources and without IP resources), and the record
  returned is the validated one with its valid flag set to the result of \<open>valid_spl\<close>,
  whatever that result is. It returns no object exactly when a structural step fails,
  and neither the structural steps nor the rejection depend on \<open>valid_spl\<close>.
\<close>

theorem spl_parse_valid_flag:
  "(spl_parse env tal der = Some r \<longleftrightarrow>
      (\<exists>s cert. spl_structural_steps env tal der s cert \<and>
         r = s\<lparr>valid := valid_spl env cert s\<rparr>)) \<and>
   (spl_parse env tal der = None \<longleftrightarrow>
      \<not> (\<exists>s cert. spl_structural_steps env tal der s cert)) \<and>
   (\<forall>vs. spl_structural_steps (env\<lparr>valid_spl := vs\<rparr>) tal der =
          spl_structural_steps env tal der \<and>
         (spl_parse (env\<lparr>valid_spl := vs\<rparr>) tal der = None) =
         (spl_parse env tal der = None))"
proof -
  have ext: "spl_structural_steps (env\<lparr>valid_spl := vs\<rparr>) tal der =
          spl_structural_steps env tal der" for vs
    by (intro ext) (rule spl_structural_steps_valid_spl)
  show ?thesis
    using spl_parse_Some_steps[of env tal der r] spl_parse_None_steps[of env tal der]
      spl_parse_None_steps[of "env\<lparr>valid_spl := vs\<rparr>" tal der for vs] ext
    by simp
qed

lemmas ex_defs = ex_env_def ex_d2i_def ex_tree_def ex_block4_def ex_block6_def
  ex_block4_unsorted_def ex_block4_empty_def ex_afi_parse_def ex_ip_addr_parse_def
  ex_parsed_def ex_pfx6_def ipv4_pfx_def spl_calloc_def afi_len_def

lemma replicate_unfold: "replicate (numeral k) x = x # replicate (pred_numeral k) x"
  by (simp add: numeral_eq_Suc)

lemmas ex_simps = ex_defs pfxsz_def prefix_cmp_def spl_pfx_cmp_def memcmp_unfold replicate_unfold

lemma ex_econtent:
  "spl_parse_econtent ex_env (ex_parsed\<lparr>asid := 0, pfxs := []\<rparr>) [0] = Inr ex_parsed"
  by (simp add: spl_parse_econtent_def ex_simps)

lemma ex_parse_ok: "spl_parse ex_env 0 [0, 0] = Some (ex_parsed\<lparr>valid := True\<rparr>)"
  by (simp add: spl_parse_def spl_parse_econtent_def ex_simps)

lemma ex_parse_invalid: "spl_parse ex_env 0 [0, 3] = Some (ex_parsed\<lparr>valid := False\<rparr>)"
  by (simp add: spl_parse_def spl_parse_econtent_def ex_simps)

theorem spl_parse_econtent_sorted_witness:
  "spl_parse_econtent ex_env (ex_parsed\<lparr>asid := 0, pfxs := []\<rparr>) [0] = Inr ex_parsed \<and>
   list_all spl_pfx_ok (pfxs ex_parsed) \<and>
   pfxs ex_parsed = [ipv4_pfx 10 0 0 0 8, ipv4_pfx 10 2 0 0 16, ex_pfx6] \<and>
   successively (\<lambda>a b. spl_pfx_cmp a b = - 1) (pfxs ex_parsed) \<and>
   pfxs_sorted (pfxs ex_parsed)"
proof -
  have h: "spl_parse_econtent ex_env (ex_parsed\<lparr>asid := 0, pfxs := []\<rparr>) [0] = Inr ex_parsed"
    by (simp add: spl_parse_econtent_def ex_simps)
  have ok: "list_all spl_pfx_ok (pfxs ex_parsed)"
    by (simp add: ex_parsed_def ex_pfx6_def ipv4_pfx_def spl_calloc_def spl_pfx_ok_def)
  have p: "pfxs ex_parsed = [ipv4_pfx 10 0 0 0 8, ipv4_pfx 10 2 0 0 16, ex_pfx6]"
    by (simp add: ex_parsed_def spl_calloc_def)
  from spl_parse_econtent_sorted[OF h] obtain es where
    e: "pfxs ex_parsed = pfxs (ex_parsed\<lparr>asid := 0, pfxs := []\<rparr>) @ es"
    and su: "successively (\<lambda>a b. spl_pfx_cmp a b = - 1) es"
    and so: "list_all spl_pfx_ok es \<longrightarrow> pfxs_sorted es"
    by blast
  from e have "es = pfxs ex_parsed" by simp
  with su so ok have "successively (\<lambda>a b. spl_pfx_cmp a b = - 1) (pfxs ex_parsed)"
    "pfxs_sorted (pfxs ex_parsed)" by simp_all
  with h ok p show ?thesis by (intro conjI)
qed

theorem spl_parse_rejects_witness:
  "cms_parse_validate ex_env [1, 0] = Some (0, [1], 1700000000) \<and>
   d2i_SignedPrefixList ex_env [1] = Some (ex_tree [ex_block4, ex_block6, ex_block6], 1) \<and>
   three_blocks (ex_tree [ex_block4, ex_block6, ex_block6]) \<and>
   spl_parse ex_env 0 [1, 0] = None \<and>
   d2i_SignedPrefixList ex_env [2] = Some (ex_tree [ex_block6, ex_block4], 1) \<and>
   ipv6_before_ipv4 ex_env (ex_tree [ex_block6, ex_block4]) \<and>
   spl_parse ex_env 0 [2, 0] = None \<and>
   d2i_SignedPrefixList ex_env [3] = Some (ex_tree [ex_block4_empty], 1) \<and>
   has_empty_block (ex_tree [ex_block4_empty]) \<and>
   spl_parse ex_env 0 [3, 0] = None \<and>
   d2i_SignedPrefixList ex_env [4] = Some (ex_tree [ex_block4_unsorted], 1) \<and>
   has_unsorted_block ex_env (ex_tree [ex_block4_unsorted]) \<and>
   spl_parse ex_env 0 [4, 0] = None \<and>
   d2i_SignedPrefixList ex_env [5] = Some (ex_tree [ex_block4, ex_block4], 1) \<and>
   duplicate_family ex_env (ex_tree [ex_block4, ex_block4]) \<and>
   spl_parse ex_env 0 [5, 0] = None \<and>
   cms_parse_validate ex_env [0, 2] = Some (2, [0], 1700000000) \<and>
   cert_parse_ee_cert ex_env 0 2 = Some 2 \<and> cert_ipsz ex_env 2 > 0 \<and>
   spl_parse ex_env 0 [0, 2] = None \<and>
   cms_parse_validate ex_env [0, 1] = Some (1, [0], 1700000000) \<and>
   cert_parse_ee_cert ex_env 0 1 = Some 1 \<and> cert_asz ex_env 1 = 0 \<and>
   spl_parse ex_env 0 [0, 1] = None"
proof -
  have cms: "cms_parse_validate ex_env [n, m] = Some (m, [n], 1700000000)" for n m
    by (simp add: ex_env_def)
  have d1: "d2i_SignedPrefixList ex_env [1] = Some (ex_tree [ex_block4, ex_block6, ex_block6], 1)"
    and d2: "d2i_SignedPrefixList ex_env [2] = Some (ex_tree [ex_block6, ex_block4], 1)"
    and d3: "d2i_SignedPrefixList ex_env [3] = Some (ex_tree [ex_block4_empty], 1)"
    and d4: "d2i_SignedPrefixList ex_env [4] = Some (ex_tree [ex_block4_unsorted], 1)"
    and d5: "d2i_SignedPrefixList ex_env [5] = Some (ex_tree [ex_block4, ex_block4], 1)"
    by (simp_all add: ex_env_def ex_d2i_def)
  have b1: "three_blocks (ex_tree [ex_block4, ex_block6, ex_block6])"
    by (simp add: three_blocks_def ex_tree_def)
  have b2: "ipv6_before_ipv4 ex_env (ex_tree [ex_block6, ex_block4])"
    unfolding ipv6_before_ipv4_def
    by (intro exI[of _ 1] conjI exI[of _ 0]) (simp_all add: ex_defs)
  have b3: "has_empty_block (ex_tree [ex_block4_empty])"
    by (simp add: has_empty_block_def ex_tree_def ex_block4_empty_def)
  have b4: "has_unsorted_block ex_env (ex_tree [ex_block4_unsorted])"
    by (simp add: has_unsorted_block_def block_unsorted_def ex_simps)
  have b5: "duplicate_family ex_env (ex_tree [ex_block4, ex_block4])"
    unfolding duplicate_family_def
    by (intro exI[of _ 1] conjI exI[of _ 0]) (simp_all add: ex_defs)
  have c2: "cert_parse_ee_cert ex_env 0 2 = Some 2 \<and> cert_ipsz ex_env 2 > 0"
    and c1: "cert_parse_ee_cert ex_env 0 1 = Some 1 \<and> cert_asz ex_env 1 = 0"
    by (simp_all add: ex_env_def)
  have r1: "spl_parse ex_env 0 [1, 0] = None"
    using spl_parse_rejects[OF cms[of 1 0], of 0] d1 b1 by blast
  have r2: "spl_parse ex_env 0 [2, 0] = None"
    using spl_parse_rejects[OF cms[of 2 0], of 0] d2 b2 by blast
  have r3: "spl_parse ex_env 0 [3, 0] = None"
    using spl_parse_rejects[OF cms[of 3 0], of 0] d3 b3 by blast
  have r4: "spl_parse ex_env 0 [4, 0] = None"
    using spl_parse_rejects[OF cms[of 4 0], of 0] d4 b4 by blast
  have r5: "spl_parse ex_env 0 [5, 0] = None"
    using spl_parse_rejects[OF cms[of 5 0], of 0] d5 b5 by blast
  have r6: "spl_parse ex_env 0 [0, 2] = None"
    using spl_parse_rejects[OF cms[of 0 2], of 0] c2 by blast
  have r7: "spl_parse ex_env 0 [0, 1] = None"
    using spl_parse_rejects[OF cms[of 0 1], of 0] c1 by blast
  show ?thesis
    using cms[of 1 0] cms[of 0 2] cms[of 0 1] d1 d2 d3 d4 d5 b1 b2 b3 b4 b5 c1 c2
      r1 r2 r3 r4 r5 r6 r7
    by (intro conjI) (simp_all only: simp_thms)
qed

theorem spl_parse_econtent_ceiling_witness:
  "spl_parse_econtent ex_env (ex_parsed\<lparr>asid := 0, pfxs := []\<rparr>) [0] = Inr ex_parsed \<and>
   pfxsz ex_parsed = 3 \<and> pfxsz ex_parsed < MAX_IP_SIZE ex_env \<and>
   d2i_SignedPrefixList (ex_env\<lparr>MAX_IP_SIZE := 3\<rparr>) [0] =
     Some (ex_tree [ex_block4, ex_block6], 1) \<and>
   1 < length (block_sizes (ex_tree [ex_block4, ex_block6])) \<and>
   MAX_IP_SIZE (ex_env\<lparr>MAX_IP_SIZE := 3\<rparr>) \<le>
     pfxsz spl_calloc + sum_list (take (Suc 1) (block_sizes (ex_tree [ex_block4, ex_block6]))) \<and>
   isl (spl_parse_econtent (ex_env\<lparr>MAX_IP_SIZE := 3\<rparr>) spl_calloc [0]) \<and>
   spl_parse ex_env 0 [0, 0] = Some (ex_parsed\<lparr>valid := True\<rparr>) \<and>
   0 < MAX_IP_SIZE ex_env \<and>
   pfxsz (ex_parsed\<lparr>valid := True\<rparr>) < MAX_IP_SIZE ex_env"
proof -
  let ?env3 = "ex_env\<lparr>MAX_IP_SIZE := 3\<rparr>"
  let ?t = "ex_tree [ex_block4, ex_block6]"
  have h1: "spl_parse_econtent ex_env (ex_parsed\<lparr>asid := 0, pfxs := []\<rparr>) [0] = Inr ex_parsed"
    by (simp add: spl_parse_econtent_def ex_simps)
  have n: "pfxsz ex_parsed = 3" by (simp add: pfxsz_def ex_parsed_def)
  have d: "d2i_SignedPrefixList ?env3 [0] = Some (?t, 1)"
    by (simp add: ex_env_def ex_d2i_def)
  have k: "1 < length (block_sizes ?t)"
    by (simp add: block_sizes_def ex_tree_def)
  have m: "MAX_IP_SIZE ?env3 \<le> pfxsz spl_calloc + sum_list (take (Suc 1) (block_sizes ?t))"
    by (simp add: block_sizes_def ex_defs pfxsz_def)
  have p: "spl_parse ex_env 0 [0, 0] = Some (ex_parsed\<lparr>valid := True\<rparr>)"
    by (simp add: spl_parse_def spl_parse_econtent_def ex_simps)
  have z: "0 < MAX_IP_SIZE ex_env" by (simp add: ex_env_def)
  have c1: "pfxsz ex_parsed < MAX_IP_SIZE ex_env"
    using spl_parse_econtent_ceiling[of ex_env "ex_parsed\<lparr>asid := 0, pfxs := []\<rparr>" "[0]" ex_parsed]
      h1 n by (simp add: ex_env_def)
  have c2: "isl (spl_parse_econtent ?env3 spl_calloc [0])"
    using spl_parse_econtent_ceiling[of ?env3 spl_calloc "[0]"] d k m by blast
  have c3: "pfxsz (ex_parsed\<lparr>valid := True\<rparr>) < MAX_IP_SIZE ex_env"
    using spl_parse_econtent_ceiling[of ex_env _ _ _ 0 "[0, 0]" "ex_parsed\<lparr>valid := True\<rparr>"] p z
    by blast
  show ?thesis using h1 n c1 d k m c2 p z c3 by (intro conjI) (simp_all only: simp_thms)
qed

theorem spl_parse_valid_flag_witness:
  "spl_parse ex_env 0 [0, 3] = Some (ex_parsed\<lparr>valid := False\<rparr>) \<and>
   (\<exists>s cert. spl_structural_steps ex_env 0 [0, 3] s cert \<and>
      ex_parsed\<lparr>valid := False\<rparr> = s\<lparr>valid := valid_spl ex_env cert s\<rparr>) \<and>
   spl_parse (ex_env\<lparr>valid_spl := \<lambda>c s. True\<rparr>) 0 [0, 3] \<noteq> None"
proof -
  have p: "spl_parse ex_env 0 [0, 3] = Some (ex_parsed\<lparr>valid := False\<rparr>)"
    by (simp add: spl_parse_def spl_parse_econtent_def ex_simps)
  note inst = spl_parse_valid_flag[of ex_env 0 "[0, 3]" "ex_parsed\<lparr>valid := False\<rparr>"]
  from inst[THEN conjunct1, THEN iffD1, OF p]
  have s: "\<exists>s cert. spl_structural_steps ex_env 0 [0, 3] s cert \<and>
      ex_parsed\<lparr>valid := False\<rparr> = s\<lparr>valid := valid_spl ex_env cert s\<rparr>" .
  from inst[THEN conjunct2, THEN conjunct2, rule_format, of "\<lambda>c s. True", THEN conjunct2]
  have "(spl_parse (ex_env\<lparr>valid_spl := \<lambda>c s. True\<rparr>) 0 [0, 3] = None) =
        (spl_parse ex_env 0 [0, 3] = None)" .
  with p have q: "spl_parse (ex_env\<lparr>valid_spl := \<lambda>c s. True\<rparr>) 0 [0, 3] \<noteq> None" by simp
  from p s q show ?thesis by (intro conjI)
qed

text \<open>
  Claim C10. Merging an SPL without prefixes leaves the target record's prefix list as
  it was (empty when the record is new). The statistics calls and the resulting
  metadata are the same as for any other prefix list in the same SPL; in particular an
  existing record takes the incoming trust-anchor id, repository id and expiration when
  the incoming expiration is strictly later. The validator accepts an eContent without
  blocks and leaves the prefix list of the record as it is.
\<close>

theorem spl_insert_vsps_no_prefixes:
  assumes "pfxs s = []"
  shows "(\<exists>st'. spl_insert_vsps repo_id repo_byid st s rp = Some st' \<and>
     tree st' (asid s) \<noteq> None \<and>
     vsp_prefixes (tree st') (asid s) = vsp_prefixes (tree st) (asid s) \<and>
     (\<forall>ps. \<exists>st2. spl_insert_vsps repo_id repo_byid st (s\<lparr>pfxs := ps\<rparr>) rp = Some st2 \<and>
        stats st2 = stats st' \<and>
        map_option vsp_meta (tree st2 (asid s)) = map_option vsp_meta (tree st' (asid s))) \<and>
     (\<forall>found. tree st (asid s) = Some found \<longrightarrow>
        map_option vsp_meta (tree st' (asid s)) =
          Some (if vsp_expires found <s expires s then spl_meta repo_id s rp
                else vsp_meta found))) \<and>
   (\<forall>t a. d2i_SignedPrefixList env d = Some (t, length d) \<and>
      valid_econtent_version env (version t) \<and>
      as_id_parse env (asn1_asid t) = Some a \<and> prefixBlocks t = [] \<longrightarrow>
      spl_parse_econtent env s0 d = Inr (s0\<lparr>asid := a\<rparr>))"
proof
  show "\<forall>t a. d2i_SignedPrefixList env d = Some (t, length d) \<and>
      valid_econtent_version env (version t) \<and>
      as_id_parse env (asn1_asid t) = Some a \<and> prefixBlocks t = [] \<longrightarrow>
      spl_parse_econtent env s0 d = Inr (s0\<lparr>asid := a\<rparr>)"
    by (simp add: spl_parse_econtent_def)
  show "\<exists>st'. spl_insert_vsps repo_id repo_byid st s rp = Some st' \<and>
     tree st' (asid s) \<noteq> None \<and>
     vsp_prefixes (tree st') (asid s) = vsp_prefixes (tree st) (asid s) \<and>
     (\<forall>ps. \<exists>st2. spl_insert_vsps repo_id repo_byid st (s\<lparr>pfxs := ps\<rparr>) rp = Some st2 \<and>
        stats st2 = stats st' \<and>
        map_option vsp_meta (tree st2 (asid s)) = map_option vsp_meta (tree st' (asid s))) \<and>
     (\<forall>found. tree st (asid s) = Some found \<longrightarrow>
        map_option vsp_meta (tree st' (asid s)) =
          Some (if vsp_expires found <s expires s then spl_meta repo_id s rp
                else vsp_meta found))"
  proof (cases "tree st (asid s)")
    case None
    show ?thesis
      using None assms spl_insert_vsps_new[of st s repo_id repo_byid rp]
        spl_insert_vsps_new[of st "s\<lparr>pfxs := ps\<rparr>" repo_id repo_byid rp for ps]
      by (simp add: vsp_prefixes_def vsp_meta_def)
  next
    case (Some found)
    show ?thesis
      using Some assms spl_insert_vsps_found[of st s found repo_id repo_byid rp]
        spl_insert_vsps_found[of st "s\<lparr>pfxs := ps\<rparr>" found repo_id repo_byid rp for ps]
      by (simp add: vsp_prefixes_def vsp_meta_def spl_meta_def)
  qed
qed

theorem spl_insert_vsps_no_prefixes_witness:
  "pfxs ex_spl0 = [] \<and>
   (\<exists>st'. spl_insert_vsps of_nat (\<lambda>_. None) ex_state1 ex_spl0 (Some (3::nat)) = Some st' \<and>
      vsp_prefixes (tree st') 65000 = [ipv4_pfx 10 0 0 0 8, ipv4_pfx 10 2 0 0 16] \<and>
      map_option vsp_meta (tree st' 65000) = Some (2, 3, 300) \<and>
      stats st' = [Repo_stat_inc None 1 RTYPE_SPL STYPE_DEC_UNIQUE,
                   Repo_stat_inc (Some 3) 2 RTYPE_SPL STYPE_UNIQUE,
                   Repo_stat_inc (Some 3) 2 RTYPE_SPL STYPE_TOTAL]) \<and>
   d2i_SignedPrefixList ex_env [6] = Some (ex_tree [], length [6::8 word]) \<and>
   valid_econtent_version ex_env (version (ex_tree [])) \<and>
   as_id_parse ex_env (asn1_asid (ex_tree [])) = Some 65000 \<and>
   prefixBlocks (ex_tree []) = [] \<and>
   spl_parse_econtent ex_env spl_calloc [6] = Inr (spl_calloc\<lparr>asid := 65000\<rparr>)"
proof -
  have h: "pfxs ex_spl0 = []" by (simp add: ex_spl0_def spl_calloc_def)
  have a: "asid ex_spl0 = 65000" by (simp add: ex_spl0_def spl_calloc_def)
  have f: "tree ex_state1 (asid ex_spl0) = Some ex_vsp1" by (simp add: a ex_state1_def)
  have lt: "vsp_expires ex_vsp1 <s expires ex_spl0"
    by (simp add: ex_vsp1_def ex_spl0_def spl_calloc_def word_sless_alt)
  have old: "vsp_prefixes (tree ex_state1) 65000 = [ipv4_pfx 10 0 0 0 8, ipv4_pfx 10 2 0 0 16]"
    by (simp add: vsp_prefixes_def ex_state1_def ex_vsp1_def)
  have m: "spl_meta of_nat ex_spl0 (Some (3::nat)) = (2, 3, 300)"
    by (simp add: spl_meta_def ex_spl0_def spl_calloc_def)
  have st: "spl_insert_vsps of_nat (\<lambda>_. None) ex_state1 ex_spl0 (Some (3::nat)) = Some st' \<Longrightarrow>
      stats st' = [Repo_stat_inc None 1 RTYPE_SPL STYPE_DEC_UNIQUE,
                   Repo_stat_inc (Some 3) 2 RTYPE_SPL STYPE_UNIQUE,
                   Repo_stat_inc (Some 3) 2 RTYPE_SPL STYPE_TOTAL]" for st'
    unfolding spl_insert_vsps_found[OF f] using lt
    by (auto simp: ex_state1_def ex_vsp1_def ex_spl0_def spl_calloc_def)
  have d: "d2i_SignedPrefixList ex_env [6] = Some (ex_tree [], length [6::8 word])"
    by (simp add: ex_env_def ex_d2i_def)
  have v: "valid_econtent_version ex_env (version (ex_tree []))"
    and i: "as_id_parse ex_env (asn1_asid (ex_tree [])) = Some 65000"
    and b: "prefixBlocks (ex_tree []) = []"
    by (simp_all add: ex_env_def ex_tree_def)
  note inst = spl_insert_vsps_no_prefixes[OF h, of of_nat "\<lambda>_. None" ex_state1 "Some 3"
      ex_env "[6]" spl_calloc]
  from inst[THEN conjunct1] obtain st' where
    r: "spl_insert_vsps of_nat (\<lambda>_. None) ex_state1 ex_spl0 (Some (3::nat)) = Some st'"
    and ps: "vsp_prefixes (tree st') (asid ex_spl0) = vsp_prefixes (tree ex_state1) (asid ex_spl0)"
    and mt: "\<forall>found. tree ex_state1 (asid ex_spl0) = Some found \<longrightarrow>
        map_option vsp_meta (tree st' (asid ex_spl0)) =
          Some (if vsp_expires found <s expires ex_spl0 then spl_meta of_nat ex_spl0 (Some 3)
                else vsp_meta found)"
    by blast
  from mt f lt m have mt': "map_option vsp_meta (tree st' 65000) = Some (2, 3, 300)"
    by (simp add: a)
  have p1: "\<exists>st'. spl_insert_vsps of_nat (\<lambda>_. None) ex_state1 ex_spl0 (Some (3::nat)) = Some st' \<and>
      vsp_prefixes (tree st') 65000 = [ipv4_pfx 10 0 0 0 8, ipv4_pfx 10 2 0 0 16] \<and>
      map_option vsp_meta (tree st' 65000) = Some (2, 3, 300) \<and>
      stats st' = [Repo_stat_inc None 1 RTYPE_SPL STYPE_DEC_UNIQUE,
                   Repo_stat_inc (Some 3) 2 RTYPE_SPL STYPE_UNIQUE,
                   Repo_stat_inc (Some 3) 2 RTYPE_SPL STYPE_TOTAL]"
    using r ps[unfolded a old] mt' st[OF r] by (intro exI[of _ st']) simp
  have p2: "spl_parse_econtent ex_env spl_calloc [6] = Inr (spl_calloc\<lparr>asid := 65000\<rparr>)"
    using inst[THEN conjunct2] d v i b by blast
  show ?thesis using h p1 d v i b p2 by (intro conjI) (simp_all only: simp_thms)
qed

section \<open>Properties of the codec\<close>

lemma length_le_bytes [simp]: "length (le_bytes n v) = n"
  by (induction n arbitrary: v) auto

lemma le_nat_le_bytes: "v < 256 ^ n \<Longrightarrow> le_nat (le_bytes n v) = v"
proof (induction n arbitrary: v)
  case 0
  then show ?case by simp
next
  case (Suc n)
  then have "v div 256 < 256 ^ n" by (simp add: less_mult_imp_div_less mult.commute)
  with Suc.IH have "le_nat (le_bytes n (v div 256)) = v div 256" by simp
  moreover have "unat (of_nat (v mod 256) :: 8 word) = v mod 256"
    by (simp add: unat_of_nat)
  ultimately show ?case by simp
qed

lemma io_read_buf_append: "io_read_buf (bs @ rest) (length bs) = Some (bs, rest)"
  by (simp add: io_read_buf_def)

lemma io_read_buf_le_bytes: "io_read_buf (le_bytes n v @ rest) n = Some (le_bytes n v, rest)"
  using io_read_buf_append[of "le_bytes n v" rest] by simp

lemma char_byte_roundtrip:
  "map ((\<lambda>x. char_of (unat x)) \<circ> (\<lambda>c. of_nat (of_char c) :: 8 word)) str = str"
proof -
  have "char_of (unat (of_nat (of_char c) :: 8 word)) = c" for c
  proof -
    have "unat (of_nat (of_char c) :: 8 word) = (of_char c :: nat) mod 256"
      by (simp add: unat_of_nat)
    then show ?thesis by simp
  qed
  then show ?thesis by (intro map_idI) simp
qed

lemma io_read_buf_length: "length bs = n \<Longrightarrow> io_read_buf (bs @ rest) n = Some (bs, rest)"
  by (simp add: io_read_buf_def)

lemma io_read_str_roundtrip:
  assumes "wire_str_ok p"
  shows "io_read_str (io_str_buffer [] p @ rest) = Some (p, rest)"
proof -
  from assms obtain str where p: "p = Some str" and ne: "str \<noteq> []" and len: "length str < 2 ^ 64"
    by (auto simp: wire_str_ok_def split: option.splits)
  have l: "le_nat (le_bytes 8 (length str)) = length str"
    using len by (intro le_nat_le_bytes) simp
  have 1: "io_read_buf (le_bytes 8 (length str) @ map (\<lambda>c. of_nat (of_char c)) str @ rest) 8 =
      Some (le_bytes 8 (length str), map (\<lambda>c. of_nat (of_char c)) str @ rest)"
    by (rule io_read_buf_length) simp
  have 2: "io_read_buf (map (\<lambda>c. of_nat (of_char c) :: 8 word) str @ rest) (length str) =
      Some (map (\<lambda>c. of_nat (of_char c)) str, rest)"
    by (rule io_read_buf_length) simp
  show ?thesis
    using ne by (simp add: p io_str_buffer_def io_simple_buffer_def io_read_str_def 1 2 l
        char_byte_roundtrip del: le_bytes.simps)
qed

lemma io_str_buffer_append: "io_str_buffer b p = b @ io_str_buffer [] p"
  by (simp add: io_str_buffer_def io_simple_buffer_def split: option.splits)

lemma afi_of_val_afi_val: "afi_of_val (afi_val af) = Some af"
  by (cases af) (simp_all add: afi_of_val_def)

lemma length_spl_pfx_bytes: "spl_pfx_ok e \<Longrightarrow> length (spl_pfx_bytes e) = spl_pfx_size"
  by (simp add: spl_pfx_bytes_def spl_pfx_ok_def spl_pfx_size_def)

lemma spl_pfx_of_bytes_roundtrip:
  assumes "spl_pfx_ok e"
  shows "spl_pfx_of_bytes (spl_pfx_bytes e) = Some e"
proof -
  have a: "length (addr (prefix e)) = 16" using assms by (simp add: spl_pfx_ok_def)
  have v: "afi_val (afi e) < 256 ^ 4" by (cases "afi e") simp_all
  have d: "drop 20 (spl_pfx_bytes e) = le_bytes 4 (afi_val (afi e))"
    using a by (simp add: spl_pfx_bytes_def del: le_bytes.simps)
  have t: "take 16 (spl_pfx_bytes e) = addr (prefix e)"
    using a by (simp add: spl_pfx_bytes_def del: le_bytes.simps)
  have n: "spl_pfx_bytes e ! 16 = prefixlen (prefix e)"
    using a by (simp add: spl_pfx_bytes_def nth_append del: le_bytes.simps)
  have "take 4 (le_bytes 4 (afi_val (afi e))) = le_bytes 4 (afi_val (afi e))"
    by (rule take_all) simp
  then show ?thesis
    by (simp add: spl_pfx_of_bytes_def d t n le_nat_le_bytes[OF v] afi_of_val_afi_val
        del: le_bytes.simps)
qed

lemma spl_pfxs_of_bytes_roundtrip:
  assumes "list_all spl_pfx_ok es"
  shows "spl_pfxs_of_bytes (length es) (concat (map spl_pfx_bytes es)) = Some es"
  using assms
proof (induction es)
  case Nil
  then show ?case by simp
next
  case (Cons e es)
  then have ok: "spl_pfx_ok e" and oks: "list_all spl_pfx_ok es" by simp_all
  have "take spl_pfx_size (spl_pfx_bytes e @ concat (map spl_pfx_bytes es)) = spl_pfx_bytes e"
    "drop spl_pfx_size (spl_pfx_bytes e @ concat (map spl_pfx_bytes es)) =
       concat (map spl_pfx_bytes es)"
    using length_spl_pfx_bytes[OF ok] by simp_all
  then show ?case
    using Cons.IH[OF oks] spl_pfx_of_bytes_roundtrip[OF ok] by simp
qed

lemma length_concat_spl_pfx_bytes:
  "list_all spl_pfx_ok es \<Longrightarrow> length (concat (map spl_pfx_bytes es)) = length es * spl_pfx_size"
  by (induction es) (simp_all add: length_spl_pfx_bytes)

text \<open>
  Claim C4. For a record with 16 address bytes in every prefix entry, the three strings
  present and not empty, and sizes that fit a \<open>size_t\<close>, \<open>spl_read\<close> on the bytes
  \<open>spl_buffer\<close> has written returns a record equal to it in AS id, trust-anchor id,
  prefix count, expiration, prefix list, the three strings and the valid flag, and
  leaves the rest of the buffer unread.
\<close>

theorem spl_read_spl_buffer:
  assumes "spl_wire_ok r"
  shows "\<exists>r'. spl_read (spl_buffer [] r @ rest) = Some (r', rest) \<and>
     asid r' = asid r \<and> talid r' = talid r \<and> pfxsz r' = pfxsz r \<and>
     expires r' = expires r \<and> pfxs r' = pfxs r \<and>
     aia r' = aia r \<and> aki r' = aki r \<and> ski r' = ski r \<and> valid r' = valid r"
proof -
  let ?es = "concat (map spl_pfx_bytes (pfxs r))"
  let ?tail3 = "io_str_buffer [] (ski r) @ rest"
  let ?tail2 = "io_str_buffer [] (aki r) @ ?tail3"
  let ?tail1 = "io_str_buffer [] (aia r) @ ?tail2"
  let ?b6 = "?es @ ?tail1"
  let ?b5 = "le_bytes 8 (unat (expires r)) @ ?b6"
  let ?b4 = "le_bytes 8 (pfxsz r) @ ?b5"
  let ?b3 = "le_bytes 4 (unat (talid r)) @ ?b4"
  let ?b2 = "le_bytes 4 (unat (asid r)) @ ?b3"
  let ?v = "(if valid r then 1 else 0) :: 8 word"
  from assms have oks: "list_all spl_pfx_ok (pfxs r)"
    and n: "length (pfxs r) * spl_pfx_size < 2 ^ 64"
    and s1: "wire_str_ok (aia r)" and s2: "wire_str_ok (aki r)" and s3: "wire_str_ok (ski r)"
    by (simp_all add: spl_wire_ok_def)
  have buf: "spl_buffer [] r @ rest = [?v] @ ?b2"
    by (simp add: spl_buffer_def io_simple_buffer_def Let_def
        io_str_buffer_append[of "_ @ _"] io_str_buffer_append[of "_ # _"]
        del: le_bytes.simps)
  have r1: "io_read_buf ([?v] @ ?b2) 1 = Some ([?v], ?b2)"
    by (rule io_read_buf_length) simp
  have r2: "io_read_buf ?b2 4 = Some (le_bytes 4 (unat (asid r)), ?b3)"
    by (rule io_read_buf_length) simp
  have r3: "io_read_buf ?b3 4 = Some (le_bytes 4 (unat (talid r)), ?b4)"
    by (rule io_read_buf_length) simp
  have r4: "io_read_buf ?b4 8 = Some (le_bytes 8 (pfxsz r), ?b5)"
    by (rule io_read_buf_length) simp
  have r5: "io_read_buf ?b5 8 = Some (le_bytes 8 (unat (expires r)), ?b6)"
    by (rule io_read_buf_length) simp
  have nn: "pfxsz r < 256 ^ 8" using n by (simp add: pfxsz_def spl_pfx_size_def)
  have l4: "le_nat (le_bytes 8 (pfxsz r)) = length (pfxs r)"
    using le_nat_le_bytes[OF nn] by (simp add: pfxsz_def)
  have r6: "io_read_buf ?b6 (length (pfxs r) * spl_pfx_size) = Some (?es, ?tail1)"
    by (rule io_read_buf_length) (simp add: length_concat_spl_pfx_bytes[OF oks])
  have r7: "spl_pfxs_of_bytes (length (pfxs r)) ?es = Some (pfxs r)"
    by (rule spl_pfxs_of_bytes_roundtrip[OF oks])
  have r8: "io_read_str ?tail1 = Some (aia r, ?tail2)"
    by (rule io_read_str_roundtrip[OF s1])
  have r9: "io_read_str ?tail2 = Some (aki r, ?tail3)"
    by (rule io_read_str_roundtrip[OF s2])
  have r10: "io_read_str ?tail3 = Some (ski r, rest)"
    by (rule io_read_str_roundtrip[OF s3])
  have ne: "aia r \<noteq> None" "aki r \<noteq> None" "ski r \<noteq> None"
    using s1 s2 s3 by (auto simp: wire_str_ok_def split: option.splits)
  have a32: "unat (asid r) < 256 ^ 4" "unat (talid r) < 256 ^ 4"
    using unsigned_less[of "asid r", where ?'a = nat] unsigned_less[of "talid r", where ?'a = nat] by simp_all
  have e64: "unat (expires r) < 256 ^ 8"
    using unsigned_less[of "expires r", where ?'a = nat] by simp
  have v: "le_nat [?v] \<noteq> 0 \<longleftrightarrow> valid r" by simp
  have "spl_read ([?v] @ ?b2) =
      Some (spl_calloc\<lparr>valid := valid r, asid := asid r, talid := talid r, pfxs := pfxs r,
              expires := expires r, aia := aia r, aki := aki r, ski := ski r\<rparr>, rest)"
    unfolding spl_read_def r1 r2 r3 r4 r5 option.case prod.case l4 r6 r7 r8 r9 r10
    using ne v by (simp add: le_nat_le_bytes[OF a32(1)] le_nat_le_bytes[OF a32(2)]
        le_nat_le_bytes[OF e64] del: le_bytes.simps le_nat.simps)
  then show ?thesis
    unfolding buf by (simp add: pfxsz_def)
qed


theorem spl_read_spl_buffer_witness:
  "spl_wire_ok (ex_parsed\<lparr>talid := 1, expires := 1800000000, valid := True\<rparr>) \<and>
   (\<exists>r'. spl_read (spl_buffer [] (ex_parsed\<lparr>talid := 1, expires := 1800000000, valid := True\<rparr>)
              @ [255]) = Some (r', [255]) \<and>
      asid r' = 65000 \<and> talid r' = 1 \<and> pfxsz r' = 3 \<and> expires r' = 1800000000 \<and>
      pfxs r' = [ipv4_pfx 10 0 0 0 8, ipv4_pfx 10 2 0 0 16, ex_pfx6] \<and>
      aia r' = Some ''rsync://rpki.example.net/repo/ca.cer'' \<and>
      aki r' = Some ''AB:CD'' \<and> ski r' = Some ''12:34'' \<and> valid r' = True)"
proof -
  let ?r = "ex_parsed\<lparr>talid := 1, expires := 1800000000, valid := True\<rparr>"
  have h: "spl_wire_ok ?r"
    by (simp add: spl_wire_ok_def wire_str_ok_def spl_pfx_ok_def spl_pfx_size_def ex_parsed_def
        ex_pfx6_def ipv4_pfx_def spl_calloc_def)
  have f: "asid ?r = 65000" "talid ?r = 1" "pfxsz ?r = 3" "expires ?r = 1800000000"
    "pfxs ?r = [ipv4_pfx 10 0 0 0 8, ipv4_pfx 10 2 0 0 16, ex_pfx6]"
    "aia ?r = Some ''rsync://rpki.example.net/repo/ca.cer''"
    "aki ?r = Some ''AB:CD''" "ski ?r = Some ''12:34''" "valid ?r = True"
    by (simp_all add: ex_parsed_def spl_calloc_def pfxsz_def)
  from spl_read_spl_buffer[OF h, of "[255]"] h show ?thesis
    unfolding f by (intro conjI)
qed

end
